theory Spec2Isabelle
  imports Complex_Main
begin

section \<open>Strings\<close>

text \<open>
  A JavaScript string is a sequence of UTF-16 code units. It is modelled as a list of
  natural numbers, one per code unit, so that \<open>length\<close>, \<open>slice\<close> and the
  regular expressions count what the source counts. ASCII literals are written through
  \<open>ascii\<close>; the Chinese literals of the source are given by their code units.
\<close>

type_synonym jstring = "nat list"

definition ascii :: "string \<Rightarrow> jstring" where
  "ascii s = map of_char s"

subsection \<open>String primitives of the language\<close>

text \<open>\<open>s.startsWith(p)\<close> and \<open>s.includes(p)\<close> (\<open>includes\<close> is a keyword of Isabelle).\<close>

fun startsWith :: "jstring \<Rightarrow> jstring \<Rightarrow> bool" where
  "startsWith s [] = True"
| "startsWith [] (p # ps) = False"
| "startsWith (c # cs) (p # ps) = (c = p \<and> startsWith cs ps)"

fun includes_str :: "jstring \<Rightarrow> jstring \<Rightarrow> bool" where
  "includes_str [] p = (p = [])"
| "includes_str (c # cs) p = (startsWith (c # cs) p \<or> includes_str cs p)"

text \<open>
  White space as \<open>\s\<close> and \<open>trim\<close> see it (WhiteSpace and LineTerminator of
  ECMAScript), line terminators, digits and word characters.
\<close>

definition isLineTerminator :: "nat \<Rightarrow> bool" where
  "isLineTerminator c = (c = 10 \<or> c = 13 \<or> c = 8232 \<or> c = 8233)"

definition isSpace :: "nat \<Rightarrow> bool" where
  "isSpace c = (c = 9 \<or> c = 10 \<or> c = 11 \<or> c = 12 \<or> c = 13 \<or> c = 32 \<or> c = 160 \<or>
                c = 5760 \<or> (8192 \<le> c \<and> c \<le> 8202) \<or> c = 8232 \<or> c = 8233 \<or>
                c = 8239 \<or> c = 8287 \<or> c = 12288 \<or> c = 65279)"

definition isDigit :: "nat \<Rightarrow> bool" where
  "isDigit c = (48 \<le> c \<and> c \<le> 57)"

definition isWord :: "nat \<Rightarrow> bool" where
  "isWord c = ((48 \<le> c \<and> c \<le> 57) \<or> (65 \<le> c \<and> c \<le> 90) \<or> (97 \<le> c \<and> c \<le> 122) \<or> c = 95)"

definition trim :: "jstring \<Rightarrow> jstring" where
  "trim s = rev (dropWhile isSpace (rev (dropWhile isSpace s)))"

text \<open>\<open>s.slice(a, b)\<close> for \<open>0 \<le> a\<close>, \<open>0 \<le> b\<close>.\<close>

definition slice :: "jstring \<Rightarrow> nat \<Rightarrow> nat \<Rightarrow> jstring" where
  "slice s a b = take (b - a) (drop a s)"

text \<open>Decimal rendering of a number in a template literal.\<close>

fun digitsOf :: "nat \<Rightarrow> jstring" where
  "digitsOf n = (if n < 10 then [48 + n] else digitsOf (n div 10) @ [48 + n mod 10])"

definition showInt :: "int \<Rightarrow> jstring" where
  "showInt i = (if i < 0 then 45 # digitsOf (nat (- i)) else digitsOf (nat i))"

text \<open>\<open>xs.join(sep)\<close>.\<close>

fun join :: "jstring \<Rightarrow> jstring list \<Rightarrow> jstring" where
  "join sep [] = []"
| "join sep [x] = x"
| "join sep (x # y # ys) = x @ sep @ join sep (y # ys)"

section \<open>Regular expressions\<close>

text \<open>
  The regular expressions of the source are values of \<open>rx\<close>, matched by a
  backtracking matcher that returns the ends of all matches from a start position in
  the order in which the engine would try them (greedy quantifiers longest first, lazy
  ones shortest first, alternatives left to right), each with the captures closed so
  far as (start, end) pairs in closing order. Every quantifier of the source stands on
  a character class, which is what \<open>Star\<close>, \<open>StarLazy\<close> and \<open>plus\<close> take.
  \<open>Bol\<close> is \<open>^\<close> under the \<open>m\<close> flag, \<open>Eol\<close> is \<open>$\<close> without it. Under the
  \<open>i\<close> flag without \<open>u\<close>, an ASCII letter of the pattern matches exactly its two
  ASCII cases (\<open>chr_i\<close>), and the classes \<open>\w\<close>, \<open>\s\<close> and \<open>\d\<close> are unchanged.
\<close>

datatype rx =
    Eps
  | Cls "nat \<Rightarrow> bool"
  | Seq rx rx
  | Alt rx rx
  | Opt rx
  | Star "nat \<Rightarrow> bool"
  | StarLazy "nat \<Rightarrow> bool"
  | Grp rx
  | Bol
  | Eol

type_synonym caps = "(nat \<times> nat) list"

fun run :: "rx \<Rightarrow> jstring \<Rightarrow> nat \<Rightarrow> caps \<Rightarrow> (nat \<times> caps) list" where
  "run Eps s i c = [(i, c)]"
| "run (Cls P) s i c = (if i < length s \<and> P (s ! i) then [(Suc i, c)] else [])"
| "run (Seq a b) s i c = concat (map (\<lambda>(j, c'). run b s j c') (run a s i c))"
| "run (Alt a b) s i c = run a s i c @ run b s i c"
| "run (Opt a) s i c = run a s i c @ [(i, c)]"
| "run (Star P) s i c =
     map (\<lambda>k. (i + k, c)) (rev [0..<Suc (length (takeWhile P (drop i s)))])"
| "run (StarLazy P) s i c =
     map (\<lambda>k. (i + k, c)) [0..<Suc (length (takeWhile P (drop i s)))]"
| "run (Grp a) s i c = map (\<lambda>(j, c'). (j, c' @ [(i, j)])) (run a s i c)"
| "run Bol s i c = (if i = 0 \<or> isLineTerminator (s ! (i - 1)) then [(i, c)] else [])"
| "run Eol s i c = (if i = length s then [(i, c)] else [])"

text \<open>
  The sequence case in first-order form, for evaluation on concrete strings: each match
  of the first part is fed to the second.
\<close>

fun feed :: "(nat \<Rightarrow> caps \<Rightarrow> (nat \<times> caps) list) \<Rightarrow> (nat \<times> caps) list \<Rightarrow> (nat \<times> caps) list" where
  "feed f [] = []"
| "feed f ((j, c) # rest) = f j c @ feed f rest"

lemma feed_eq: "feed f xs = concat (map (\<lambda>(j, c). f j c) xs)"
  by (induction xs) auto

lemma run_Seq_feed: "run (Seq a b) s i c = feed (run b s) (run a s i c)"
  by (simp add: feed_eq)

definition chr :: "nat \<Rightarrow> rx" where
  "chr x = Cls (\<lambda>c. c = x)"

definition chr_i :: "nat \<Rightarrow> rx" where
  \<comment> \<open>A pattern character under the \<open>i\<close> flag.\<close>
  "chr_i x = Cls (\<lambda>c. c = x \<or> (97 \<le> x \<and> x \<le> 122 \<and> c + 32 = x) \<or> (65 \<le> x \<and> x \<le> 90 \<and> c = x + 32))"

fun seqs :: "rx list \<Rightarrow> rx" where
  "seqs [] = Eps"
| "seqs [r] = r"
| "seqs (r # rs) = Seq r (seqs rs)"

fun alts :: "rx list \<Rightarrow> rx" where
  "alts [] = Eps"
| "alts [r] = r"
| "alts (r # rs) = Alt r (alts rs)"

definition lit :: "jstring \<Rightarrow> rx" where
  "lit s = seqs (map chr s)"

definition lit_i :: "jstring \<Rightarrow> rx" where
  "lit_i s = seqs (map chr_i s)"

definition plus :: "(nat \<Rightarrow> bool) \<Rightarrow> rx" where
  "plus P = Seq (Cls P) (Star P)"

text \<open>
  \<open>re.exec(s)\<close> of a regular expression without the \<open>g\<close> flag: the leftmost start
  that has a match, with the end and captures of the first match there.
  \<open>s.match(re)\<close> returns the same, \<open>re.test(s)\<close> whether it exists.
\<close>

definition execAt :: "rx \<Rightarrow> jstring \<Rightarrow> nat \<Rightarrow> (nat \<times> nat \<times> caps) option" where
  "execAt r s i = (case run r s i [] of [] \<Rightarrow> None | (j, c) # _ \<Rightarrow> Some (i, j, c))"

definition exec :: "rx \<Rightarrow> jstring \<Rightarrow> (nat \<times> nat \<times> caps) option" where
  "exec r s = (case List.find (\<lambda>i. run r s i [] \<noteq> []) [0..<Suc (length s)] of
                 None \<Rightarrow> None
               | Some i \<Rightarrow> execAt r s i)"

definition test :: "rx \<Rightarrow> jstring \<Rightarrow> bool" where
  "test r s = (exec r s \<noteq> None)"

section \<open>Tool registry (tools/registry.ts)\<close>

text \<open>
  A tool is identified by its \<open>name\<close>; its parameter schema and its \<open>execute\<close>
  function play no role in registration and are kept as an abstract payload.
\<close>

record 'x Tool =
  name :: jstring
  description :: jstring
  payload :: 'x

record ToolRegistryConfig =
  enabledTools :: "jstring list option"
  disabledTools :: "jstring list option"

text \<open>
  The registry holds a JavaScript \<open>Map\<close>, which keeps insertion order: \<open>set\<close> on a
  present key replaces the value in place, on an absent key it appends.
\<close>

fun mapSet :: "'k \<Rightarrow> 'v \<Rightarrow> ('k \<times> 'v) list \<Rightarrow> ('k \<times> 'v) list" where
  "mapSet k v [] = [(k, v)]"
| "mapSet k v ((k', v') # ps) = (if k = k' then (k, v) # ps else (k', v') # mapSet k v ps)"

record 'x ToolRegistry =
  tools :: "(jstring \<times> 'x Tool) list"
  config :: ToolRegistryConfig

definition newToolRegistry :: "ToolRegistryConfig \<Rightarrow> 'x ToolRegistry" where
  "newToolRegistry cfg = \<lparr>tools = [], config = cfg\<rparr>"

text \<open>\<open>xs?.includes(n)\<close>: an absent array makes the test falsy.\<close>

definition optIncludes :: "jstring list option \<Rightarrow> jstring \<Rightarrow> bool" where
  "optIncludes xs n = (case xs of None \<Rightarrow> False | Some l \<Rightarrow> n \<in> set l)"

definition register :: "'x ToolRegistry \<Rightarrow> 'x Tool \<Rightarrow> 'x ToolRegistry" where
  "register reg tool =
     (if optIncludes (disabledTools (config reg)) (name tool) then reg
      else if (case enabledTools (config reg) of
                 None \<Rightarrow> False
               | Some es \<Rightarrow> length es > 0 \<and> name tool \<notin> set es) then reg
      else reg\<lparr>tools := mapSet (name tool) tool (tools reg)\<rparr>)"

fun registerAll :: "'x ToolRegistry \<Rightarrow> 'x Tool list \<Rightarrow> 'x ToolRegistry" where
  "registerAll reg [] = reg"
| "registerAll reg (t # ts) = registerAll (register reg t) ts"

definition get :: "'x ToolRegistry \<Rightarrow> jstring \<Rightarrow> 'x Tool option" where
  "get reg n = map_of (tools reg) n"

definition has :: "'x ToolRegistry \<Rightarrow> jstring \<Rightarrow> bool" where
  "has reg n = (map_of (tools reg) n \<noteq> None)"

definition getAll :: "'x ToolRegistry \<Rightarrow> 'x Tool list" where
  "getAll reg = map snd (tools reg)"

definition getNames :: "'x ToolRegistry \<Rightarrow> jstring list" where
  "getNames reg = map fst (tools reg)"

section \<open>Registration\<close>

lemma map_of_mapSet: "map_of (mapSet k v ps) = (map_of ps)(k \<mapsto> v)"
  by (induction ps) auto

text \<open>
  C10. \<open>register t\<close> stores \<open>t\<close> under its name exactly when the name is not in
  \<open>disabledTools\<close> and \<open>enabledTools\<close> is absent, empty or contains the name;
  otherwise the registry is left as it was. An empty \<open>enabledTools\<close> accepts every
  tool that is not disabled, and a name in both lists is rejected.
\<close>

definition accepted_spec :: "ToolRegistryConfig \<Rightarrow> jstring \<Rightarrow> bool" where
  \<comment> \<open>The acceptance condition in the words of the specification.\<close>
  "accepted_spec cfg n =
     (\<not> (\<exists>ds. disabledTools cfg = Some ds \<and> n \<in> set ds) \<and>
      (enabledTools cfg = None \<or> enabledTools cfg = Some [] \<or>
       (\<exists>es. enabledTools cfg = Some es \<and> n \<in> set es)))"

theorem register_iff:
  "(accepted_spec (config reg) (name t) \<longrightarrow>
      register reg t = reg\<lparr>tools := mapSet (name t) t (tools reg)\<rparr> \<and>
      get (register reg t) (name t) = Some t)
   \<and> (\<not> accepted_spec (config reg) (name t) \<longrightarrow> register reg t = reg)
   \<and> (enabledTools (config reg) = Some [] \<and> \<not> optIncludes (disabledTools (config reg)) (name t)
        \<longrightarrow> has (register reg t) (name t))
   \<and> (optIncludes (disabledTools (config reg)) (name t) \<and>
        optIncludes (enabledTools (config reg)) (name t) \<longrightarrow> register reg t = reg)"
  by (auto simp: accepted_spec_def register_def optIncludes_def get_def has_def map_of_mapSet
           split: option.splits)

theorem register_iff_witness:
  "accepted_spec \<lparr>enabledTools = Some [], disabledTools = Some [ascii ''ripgrep'']\<rparr> (ascii ''think'')
   \<and> get (register \<lparr>tools = [], config = \<lparr>enabledTools = Some [], disabledTools = Some [ascii ''ripgrep'']\<rparr>\<rparr>
               \<lparr>name = ascii ''think'', description = [], payload = ()\<rparr>) (ascii ''think'')
       = Some \<lparr>name = ascii ''think'', description = [], payload = ()\<rparr>
   \<and> \<not> accepted_spec \<lparr>enabledTools = Some [ascii ''ripgrep''], disabledTools = Some [ascii ''ripgrep'']\<rparr> (ascii ''ripgrep'')
   \<and> register \<lparr>tools = [], config = \<lparr>enabledTools = Some [ascii ''ripgrep''], disabledTools = Some [ascii ''ripgrep'']\<rparr>\<rparr>
               \<lparr>name = ascii ''ripgrep'', description = [], payload = ()\<rparr>
       = \<lparr>tools = [], config = \<lparr>enabledTools = Some [ascii ''ripgrep''], disabledTools = Some [ascii ''ripgrep'']\<rparr>\<rparr>"
  using register_iff [of "\<lparr>tools = [], config = \<lparr>enabledTools = Some [], disabledTools = Some [ascii ''ripgrep'']\<rparr>\<rparr>"
                         "\<lparr>name = ascii ''think'', description = [], payload = ()\<rparr>"]
        register_iff [of "\<lparr>tools = [], config = \<lparr>enabledTools = Some [ascii ''ripgrep''], disabledTools = Some [ascii ''ripgrep'']\<rparr>\<rparr>"
                         "\<lparr>name = ascii ''ripgrep'', description = [], payload = ()\<rparr>"]
  by (simp add: accepted_spec_def ascii_def get_def)

section \<open>Token estimation (utils/tokens.ts)\<close>

text \<open>
  \<open>estimateTokens\<close> counts the tokens the tiktoken encoder returns and falls back to a
  quarter of the length when the encoder throws. The encoder is a library outside the
  repository: it is the parameter \<open>enc\<close>, giving the number of tokens or \<open>None\<close>
  when it throws.
\<close>

type_synonym encoder = "jstring \<Rightarrow> nat option"

definition estimateTokens :: "encoder \<Rightarrow> jstring \<Rightarrow> int" where
  "estimateTokens enc text =
     (if text = [] then 0
      else case enc text of
             Some n \<Rightarrow> int n
           | None \<Rightarrow> (int (length text) + 3) div 4)"

section \<open>Context types (context/types.ts)\<close>

datatype Role = User | Assistant

record Metadata =
  toolName :: "jstring option"
  source :: "jstring option"
  compressible :: "bool option"

record ChatMessage =
  key :: jstring
  role :: Role
  content :: jstring
  tokens :: int
  compressed :: bool
  originalTokens :: "int option"
  timestamp :: int
  metadata :: "Metadata option"

datatype Priority = High | Medium | Low

record CompressionROI =
  messageKey :: jstring
  currentTokens :: int
  estimatedCompressedTokens :: int
  savings :: int
  priority :: Priority

text \<open>\<open>StorageLayer.messages\<close> is a \<open>Map\<close> from message key to file path.\<close>

record StorageLayer =
  sessionDir :: jstring
  messagePaths :: "(jstring \<times> jstring) list"

record BudgetConfig =
  contextWindow :: int
  reservedForSynthesis :: int
  reservedForRecalls :: int
  reservedForNextSteps :: int

record Breakdown =
  systemPrompt :: int
  messagesTokens :: int
  reserved :: int

record BudgetState =
  total :: int
  used :: int
  available :: int
  breakdown :: Breakdown

record Session =
  sessionId :: jstring
  query :: jstring
  startedAt :: int
  workingDir :: jstring
  storageLayer :: StorageLayer
  messages :: "ChatMessage list"
  totalTokens :: int
  budget :: BudgetState

record SynthesisMessage =
  sm_key :: jstring
  sm_role :: Role
  sm_content :: jstring
  sm_toolName :: "jstring option"
  sm_source :: "jstring option"
  sm_compressed :: bool

record RecallResult =
  success :: bool
  rr_content :: jstring
  rr_tokens :: int
  rr_source :: "jstring option"

text \<open>\<open>COMPRESSION_THRESHOLDS\<close>.\<close>

definition minTokensToCompress :: int where
  "minTokensToCompress = 200"

definition triggerRatio :: rat where
  "triggerRatio = 8 / 10"

definition targetRatio :: rat where
  "targetRatio = 6 / 10"

definition protectedRecentMessages :: nat where
  "protectedRecentMessages = 4"

section \<open>Storage (context/storage.ts)\<close>

text \<open>
  The disk is a map from file paths to the JSON values written there: the message files
  hold what \<open>saveMessageContent\<close> writes, the session files what \<open>saveSession\<close>
  writes. A call of \<open>fs.ensureDir\<close> or \<open>fs.writeJson\<close> may reject: every function
  that awaits one takes its outcome, \<open>None\<close> when the call succeeds and the message of
  the error when it rejects, and the error is then the result of the function. A file
  that was written stays readable. \<open>path.join\<close> is concatenation with \<open>/\<close>: the
  session ids and message keys come from nanoid, whose alphabet has neither separators
  nor dots, so nothing is normalised away.
\<close>

type_synonym rejection = "jstring option"

text \<open>
  The errors thrown: the \<open>Error\<close> of a call without a session, and the error of a
  rejected file-system call, with its message.
\<close>

datatype error = NoActiveSession | StorageError jstring

definition errorMessage :: "error \<Rightarrow> jstring" where
  "errorMessage e = (case e of NoActiveSession \<Rightarrow> ascii ''No active session''
                             | StorageError m \<Rightarrow> m)"

text \<open>The outcomes of the file-system calls of \<open>createSession\<close> and of \<open>addMessage\<close>.\<close>

record SessionWrites =
  w_init :: rejection
  w_dirs :: rejection
  w_sessionFile :: rejection

record MessageWrites =
  w_content :: rejection
  w_compress :: rejection
  w_session :: rejection

record StoredMessage =
  st_key :: jstring
  st_role :: Role
  st_content :: jstring
  st_tokens :: int
  st_timestamp :: int
  st_metadata :: "Metadata option"

record ContextStorage =
  base :: jstring
  sessions :: jstring
  initialized :: bool
  messageFiles :: "jstring \<rightharpoonup> StoredMessage"
  sessionFiles :: "jstring \<rightharpoonup> Session"

definition pathJoin :: "jstring list \<Rightarrow> jstring" where
  "pathJoin ps = join (ascii ''/'') ps"

text \<open>
  \<open>init\<close>: a rejection of one of its two \<open>ensureDir\<close> calls is thrown again as a
  \<open>ContextError\<close> whose message quotes the error (\<open>Error: \<close> and its message).
\<close>

definition init :: "rejection \<Rightarrow> ContextStorage \<Rightarrow> error + ContextStorage" where
  "init w st =
     (if initialized st then Inr st
      else case w of
             Some e \<Rightarrow> Inl (StorageError (ascii ''Failed to initialize storage: Error: '' @ e))
           | None \<Rightarrow> Inr (st\<lparr>initialized := True\<rparr>))"

definition saveSession :: "rejection \<Rightarrow> ContextStorage \<Rightarrow> Session \<Rightarrow> error + ContextStorage" where
  "saveSession w st s =
     (case w of
        Some e \<Rightarrow> Inl (StorageError e)
      | None \<Rightarrow> Inr (st\<lparr>sessionFiles := (sessionFiles st)
                          (pathJoin [sessions st, sessionId s, ascii ''session.json''] \<mapsto> s)\<rparr>))"

text \<open>
  \<open>createSession\<close>: \<open>sid\<close> is the value of \<open>nanoid(10)\<close>, \<open>now\<close> of \<open>Date.now()\<close>;
  \<open>w_dirs\<close> is the outcome of the three \<open>ensureDir\<close> calls for the directories of the
  session. The result is the error thrown and the storage it leaves, or the storage and
  the session.
\<close>

definition createSession ::
  "SessionWrites \<Rightarrow> ContextStorage \<Rightarrow> jstring \<Rightarrow> int \<Rightarrow> jstring \<Rightarrow> jstring
     \<Rightarrow> error \<times> ContextStorage + ContextStorage \<times> Session" where
  "createSession w st sid now q wd =
     (case init (w_init w) st of
        Inl e \<Rightarrow> Inl (e, st)
      | Inr st1 \<Rightarrow>
          (case w_dirs w of
             Some e \<Rightarrow> Inl (StorageError e, st1)
           | None \<Rightarrow>
               let dir = pathJoin [sessions st1, sid];
                   s = \<lparr>sessionId = sid, query = q, startedAt = now, workingDir = wd,
                        storageLayer = \<lparr>sessionDir = dir, messagePaths = []\<rparr>,
                        messages = [], totalTokens = 0,
                        budget = \<lparr>total = 0, used = 0, available = 0,
                                  breakdown = \<lparr>systemPrompt = 0, messagesTokens = 0,
                                               reserved = 0\<rparr>\<rparr>\<rparr>
               in case saveSession (w_sessionFile w) st1 s of
                    Inl e \<Rightarrow> Inl (e, st1)
                  | Inr st2 \<Rightarrow> Inr (st2, s)))"

definition messageFilePath :: "ContextStorage \<Rightarrow> jstring \<Rightarrow> jstring \<Rightarrow> jstring" where
  "messageFilePath st sid k =
     pathJoin [pathJoin [sessions st, sid, ascii ''messages''], k @ ascii ''.json'']"

definition saveMessageContent ::
  "rejection \<Rightarrow> ContextStorage \<Rightarrow> jstring \<Rightarrow> ChatMessage \<Rightarrow> error + ContextStorage \<times> jstring" where
  "saveMessageContent w st sid message =
     (let filePath = messageFilePath st sid (key message);
          stored = \<lparr>st_key = key message, st_role = role message,
                    st_content = content message, st_tokens = tokens message,
                    st_timestamp = timestamp message, st_metadata = metadata message\<rparr>
      in case w of
           Some e \<Rightarrow> Inl (StorageError e)
         | None \<Rightarrow> Inr (st\<lparr>messageFiles := (messageFiles st)(filePath \<mapsto> stored)\<rparr>, filePath))"

text \<open>\<open>loadMessageContent\<close>: the stored fields with \<open>compressed: false\<close>, or null.\<close>

definition loadMessageContent ::
  "ContextStorage \<Rightarrow> jstring \<Rightarrow> jstring \<Rightarrow> ChatMessage option" where
  "loadMessageContent st sid messageKey' =
     (case messageFiles st (pathJoin [sessions st, sid, ascii ''messages'', messageKey' @ ascii ''.json'']) of
        None \<Rightarrow> None
      | Some d \<Rightarrow> Some \<lparr>key = st_key d, role = st_role d, content = st_content d,
                        tokens = st_tokens d, compressed = False, originalTokens = None,
                        timestamp = st_timestamp d, metadata = st_metadata d\<rparr>)"


section \<open>Context manager (context/manager.ts)\<close>

text \<open>
  The manager owns the storage, the session (null before \<open>initSession\<close>), the budget
  configuration and the token count of the system prompt. Token counts and budgets are
  integers; the two ratios of the thresholds are rationals, which agree with the
  floating-point arithmetic of the source on every integer below \<open>2^50\<close>. Events and
  log lines change no state and are left out. An operation that can throw gives the
  error together with the manager as the throw leaves it.
\<close>

record ContextManager =
  storage :: ContextStorage
  session :: "Session option"
  budgetConfig :: BudgetConfig
  systemPromptTokens :: int

text \<open>Truthiness of an optional string: defined and not empty.\<close>

definition truthy :: "jstring option \<Rightarrow> bool" where
  "truthy x = (case x of None \<Rightarrow> False | Some s \<Rightarrow> s \<noteq> [])"

text \<open>\<open>message.metadata?.toolName\<close>, \<open>?.source\<close> and \<open>?.compressible\<close>.\<close>

definition metaToolName :: "ChatMessage \<Rightarrow> jstring option" where
  "metaToolName m = (case metadata m of None \<Rightarrow> None | Some md \<Rightarrow> toolName md)"

definition metaSource :: "ChatMessage \<Rightarrow> jstring option" where
  "metaSource m = (case metadata m of None \<Rightarrow> None | Some md \<Rightarrow> source md)"

definition metaCompressible :: "ChatMessage \<Rightarrow> bool option" where
  "metaCompressible m = (case metadata m of None \<Rightarrow> None | Some md \<Rightarrow> compressible md)"

definition calculateBudget :: "ContextManager \<Rightarrow> BudgetState" where
  "calculateBudget cm =
     (let reserved' = reservedForSynthesis (budgetConfig cm) + reservedForRecalls (budgetConfig cm)
                      + reservedForNextSteps (budgetConfig cm);
          messagesTokens' = (case session cm of None \<Rightarrow> 0 | Some s \<Rightarrow> totalTokens s);
          used' = systemPromptTokens cm + messagesTokens';
          available' = contextWindow (budgetConfig cm) - used' - reserved'
      in \<lparr>total = contextWindow (budgetConfig cm), used = used', available = max 0 available',
          breakdown = \<lparr>systemPrompt = systemPromptTokens cm, messagesTokens = messagesTokens',
                       reserved = reserved'\<rparr>\<rparr>)"

text \<open>
  \<open>needsCompression\<close>: \<open>used / total >= 0.8\<close>. Division by a zero total gives
  Infinity for a positive \<open>used\<close>, and NaN or minus Infinity otherwise, which compare
  false.
\<close>

definition needsCompression :: "ContextManager \<Rightarrow> bool" where
  "needsCompression cm =
     (case session cm of
        None \<Rightarrow> False
      | Some s \<Rightarrow>
          if total (budget s) = 0 then 0 < used (budget s)
          else triggerRatio \<le> of_int (used (budget s)) / of_int (total (budget s)))"

definition calculateTokensToFree :: "ContextManager \<Rightarrow> int" where
  "calculateTokensToFree cm =
     (case session cm of
        None \<Rightarrow> 0
      | Some s \<Rightarrow>
          let targetTokens = of_int (total (budget s)) * targetRatio;
              toFree = of_int (used (budget s)) - targetTokens
          in max 0 \<lceil>toFree\<rceil>)"

definition isCompressible :: "ChatMessage \<Rightarrow> bool" where
  "isCompressible message =
     (if compressed message then False
      else if tokens message < minTokensToCompress then False
      else if metaCompressible message = Some False then False
      else if truthy (metaToolName message) then True
      else tokens message \<ge> minTokensToCompress)"

definition candidateOf :: "ChatMessage \<Rightarrow> CompressionROI" where
  \<comment> \<open>The body of the loop of \<open>getCompressionCandidates\<close> for a compressible message.\<close>
  "candidateOf message =
     (let compressionRatio = (if truthy (metaToolName message) then 5 / 100 else 2 / 10 :: rat);
          estimated = max 50 \<lceil>of_int (tokens message) * compressionRatio\<rceil>;
          savings' = tokens message - estimated;
          priority' = (if metaToolName message = Some (ascii ''read_file'') then High
                       else if metaToolName message = Some (ascii ''ripgrep'') then High
                       else if role message = Assistant then Low
                       else Medium)
      in \<lparr>messageKey = key message, currentTokens = tokens message,
          estimatedCompressedTokens = estimated, savings = savings', priority = priority'\<rparr>)"

text \<open>\<open>messages.slice(0, -protectedCount)\<close>: everything but the last four.\<close>

definition unprotected :: "ChatMessage list \<Rightarrow> ChatMessage list" where
  "unprotected ms = take (length ms - protectedRecentMessages) ms"

definition getCompressionCandidates :: "ContextManager \<Rightarrow> CompressionROI list" where
  "getCompressionCandidates cm =
     (case session cm of
        None \<Rightarrow> []
      | Some s \<Rightarrow> map candidateOf (filter isCompressible (unprotected (messages s))))"

text \<open>
  The comparator of \<open>candidates.sort\<close>, and the sort itself: \<open>Array.prototype.sort\<close>
  is stable, and the comparator is a total preorder, so the result is the stable
  insertion sort by it.
\<close>

definition priorityOrder :: "Priority \<Rightarrow> int" where
  "priorityOrder p = (case p of High \<Rightarrow> 0 | Medium \<Rightarrow> 1 | Low \<Rightarrow> 2)"

definition compareCandidates :: "CompressionROI \<Rightarrow> CompressionROI \<Rightarrow> int" where
  "compareCandidates a b =
     (if priorityOrder (priority a) \<noteq> priorityOrder (priority b)
      then priorityOrder (priority a) - priorityOrder (priority b)
      else savings b - savings a)"

fun insertCandidate :: "CompressionROI \<Rightarrow> CompressionROI list \<Rightarrow> CompressionROI list" where
  "insertCandidate x [] = [x]"
| "insertCandidate x (y # ys) =
     (if compareCandidates x y \<le> 0 then x # y # ys else y # insertCandidate x ys)"

definition sortCandidates :: "CompressionROI list \<Rightarrow> CompressionROI list" where
  "sortCandidates cs = foldr insertCandidate cs []"

subsection \<open>Compressed placeholders\<close>

text \<open>\<open>s.split(/\s+/)\<close>; the flag says that the previous unit was a separator.\<close>

fun splitSpaces :: "bool \<Rightarrow> jstring \<Rightarrow> jstring list" where
  "splitSpaces b [] = [[]]"
| "splitSpaces b (c # cs) =
     (if isSpace c then (if b then splitSpaces True cs else [] # splitSpaces True cs)
      else (case splitSpaces False cs of
              [] \<Rightarrow> [[c]]
            | p # ps \<Rightarrow> (c # p) # ps))"

text \<open>\<open>/(?:func|function|def|class|interface|type)\s+(\w+)/g\<close>\<close>

definition symbolPattern :: rx where
  "symbolPattern =
     seqs [alts [lit (ascii ''func''), lit (ascii ''function''), lit (ascii ''def''),
                 lit (ascii ''class''), lit (ascii ''interface''), lit (ascii ''type'')],
           plus isSpace, Grp (plus isWord)]"


lemma run_end_ge: "(j, c') \<in> set (run r s i c) \<Longrightarrow> i \<le> j"
proof (induction r arbitrary: i c j c')
  case (Seq a b)
  then obtain k d where "(k, d) \<in> set (run a s i c)" "(j, c') \<in> set (run b s k d)"
    by auto
  with Seq.IH show ?case by (meson le_trans)
qed (auto split: if_splits)

lemma find_in_set: "List.find P xs = Some x \<Longrightarrow> x \<in> set xs"
  by (induction xs) (auto split: if_splits)

text \<open>
  \<open>s.match(re)\<close> with the \<open>g\<close> flag: all matches from left to right, each search
  starting where the previous match ended (one further after an empty match).
\<close>

function matchAllFrom :: "rx \<Rightarrow> jstring \<Rightarrow> nat \<Rightarrow> (nat \<times> nat \<times> caps) list" where
  "matchAllFrom r s i =
     (if length s < i then []
      else case List.find (\<lambda>k. run r s k [] \<noteq> []) [i..<Suc (length s)] of
             None \<Rightarrow> []
           | Some k \<Rightarrow>
               (case run r s k [] of
                  [] \<Rightarrow> []
                | (e, c) # _ \<Rightarrow> (k, e, c) # matchAllFrom r s (if e = k then Suc e else e)))"
  by pat_completeness auto
termination
proof (relation "measure (\<lambda>(r, s, i). Suc (length s) - i)", goal_cases)
  case 1
  show ?case by simp
next
  case (2 r s i k p ps)
  from 2(2) have "k \<in> set [i..<Suc (length s)]"
    by (rule find_in_set)
  then have k: "i \<le> k" "k \<le> length s" by (simp_all del: upt_Suc)
  from 2(3) have "(fst p, snd p) \<in> set (run r s k [])" by simp
  then have "k \<le> fst p" by (rule run_end_ge)
  with k 2(1,4) show ?case by (cases p) auto
qed

definition matchAll :: "rx \<Rightarrow> jstring \<Rightarrow> jstring list" where
  "matchAll r s = map (\<lambda>(a, b, c). slice s a b) (matchAllFrom r s 0)"

definition summarizeFileContent :: "jstring \<Rightarrow> jstring \<Rightarrow> jstring" where
  "summarizeFileContent content' source' =
     (let lineCount = Suc (length (filter (\<lambda>c. c = 10) content'));
          functionMatches = matchAll symbolPattern content';
          symbols = map (\<lambda>m. case splitSpaces False m of _ # w # _ \<Rightarrow> w | _ \<Rightarrow> [])
                        (take 5 functionMatches);
          summary = ascii ''('' @ showInt (int lineCount) @ [34892] @ ascii '')''
      in if length symbols > 0
         then summary @ ascii '' '' @ [21253, 21547] @ ascii '': '' @ join (ascii '', '') symbols
              @ (if length functionMatches > 5
                 then ascii '' '' @ [31561] @ showInt (int (length functionMatches)) @ [20010, 31526, 21495]
                 else [])
         else summary)"

definition recallHint :: "jstring \<Rightarrow> jstring \<Rightarrow> jstring" where
  \<comment> \<open>The closing line of a placeholder: the Chinese request \<open>w\<close>, then \<open>recall_detail(key="k")\<close>.\<close>
  "recallHint w k = [10] @ w @ [65292, 20351, 29992] @ ascii '' recall_detail(key='' @ [34] @ k @ [34] @ ascii '')''"

definition createCompressedContent :: "ChatMessage \<Rightarrow> jstring" where
  "createCompressedContent message =
     (if metaToolName message = Some (ascii ''read_file'') \<and> truthy (metaSource message)
      then ascii ''[COMPRESSED:'' @ key message @ ascii ''] '' @ [25991, 20214] @ ascii '' ''
           @ the (metaSource message) @ [10]
           @ summarizeFileContent (content message) (the (metaSource message))
           @ recallHint [22914, 38656, 23436, 25972, 20869, 23481] (key message)
      else if metaToolName message = Some (ascii ''ripgrep'')
      then ascii ''[COMPRESSED:'' @ key message @ ascii ''] '' @ [25628, 32034, 32467, 26524]
           @ ascii '' ('' @ showInt (int (length (filter (\<lambda>c. c = 10) (content message))))
           @ [20010, 21305, 37197] @ ascii '')''
           @ recallHint [22914, 38656, 23436, 25972, 32467, 26524] (key message)
      else ascii ''[COMPRESSED:'' @ key message @ ascii ''] ''
           @ map (\<lambda>c. if c = 10 then 32 else c) (slice (content message) 0 200) @ ascii ''...''
           @ recallHint [22914, 38656, 23436, 25972, 20869, 23481] (key message))"

subsection \<open>Compression and eviction\<close>

text \<open>\<open>messages.find(m => m.key === k)\<close>, as the index of the object it returns.\<close>

fun findIndex :: "('a \<Rightarrow> bool) \<Rightarrow> 'a list \<Rightarrow> nat option" where
  "findIndex P [] = None"
| "findIndex P (x # xs) = (if P x then Some 0 else map_option Suc (findIndex P xs))"

definition compressMessage :: "encoder \<Rightarrow> ChatMessage \<Rightarrow> ChatMessage" where
  \<comment> \<open>The four assignments that turn a message into its placeholder.\<close>
  "compressMessage enc message =
     (let compressedContent = createCompressedContent message;
          compressedTokens = estimateTokens enc compressedContent
      in message\<lparr>originalTokens := Some (tokens message), content := compressedContent,
                 tokens := compressedTokens, compressed := True\<rparr>)"

text \<open>
  The loop of \<open>compress\<close> over the sorted candidates; the state is the session and
  \<open>freedTokens\<close>.
\<close>

fun compressLoop ::
  "encoder \<Rightarrow> int \<Rightarrow> CompressionROI list \<Rightarrow> Session \<times> int \<Rightarrow> Session \<times> int" where
  "compressLoop enc tokensToFree [] (s, freedTokens) = (s, freedTokens)"
| "compressLoop enc tokensToFree (candidate # rest) (s, freedTokens) =
     (if freedTokens \<ge> tokensToFree then (s, freedTokens)
      else case findIndex (\<lambda>m. key m = messageKey candidate) (messages s) of
             None \<Rightarrow> compressLoop enc tokensToFree rest (s, freedTokens)
           | Some i \<Rightarrow>
               let message = messages s ! i in
               if compressed message then compressLoop enc tokensToFree rest (s, freedTokens)
               else
                 let message' = compressMessage enc message;
                     savings' = tokens message - tokens message'
                 in compressLoop enc tokensToFree rest
                      (s\<lparr>messages := (messages s)[i := message'],
                         totalTokens := totalTokens s - savings'\<rparr>,
                       freedTokens + savings'))"

text \<open>The scan of \<open>discardOldestMessages\<close>; the state is \<open>toDiscard\<close> and \<open>freedTokens\<close>.\<close>

fun discardScan :: "int \<Rightarrow> ChatMessage list \<Rightarrow> jstring list \<times> int \<Rightarrow> jstring list \<times> int" where
  "discardScan tokensToFree [] (toDiscard, freedTokens) = (toDiscard, freedTokens)"
| "discardScan tokensToFree (message # rest) (toDiscard, freedTokens) =
     (if freedTokens \<ge> tokensToFree then (toDiscard, freedTokens)
      else discardScan tokensToFree rest (toDiscard @ [key message], freedTokens + tokens message))"

definition discardOldestMessages :: "Session \<Rightarrow> int \<Rightarrow> Session" where
  "discardOldestMessages s tokensToFree =
     (let discardableMessages = unprotected (messages s);
          (toDiscard, freedTokens) = discardScan tokensToFree discardableMessages ([], 0)
      in s\<lparr>messages := filter (\<lambda>m. key m \<notin> set toDiscard) (messages s),
           totalTokens := totalTokens s - freedTokens\<rparr>)"

text \<open>\<open>compress\<close>; \<open>w\<close> is the outcome of the \<open>saveSession\<close> at its end.\<close>

definition compress ::
  "encoder \<Rightarrow> rejection \<Rightarrow> ContextManager \<Rightarrow> error \<times> ContextManager + ContextManager" where
  "compress enc w cm =
     (case session cm of
        None \<Rightarrow> Inr cm
      | Some s \<Rightarrow>
          let tokensToFree = calculateTokensToFree cm in
          if tokensToFree \<le> 0 then Inr cm
          else
            let candidates = getCompressionCandidates cm in
            if length candidates = 0
            then Inr (cm\<lparr>session := Some (discardOldestMessages s tokensToFree)\<rparr>)
            else
              let (s1, freedTokens) =
                    compressLoop enc tokensToFree (sortCandidates candidates) (s, 0);
                  s2 = (if freedTokens < tokensToFree
                        then discardOldestMessages s1 (tokensToFree - freedTokens) else s1);
                  s3 = s2\<lparr>budget := calculateBudget (cm\<lparr>session := Some s2\<rparr>)\<rparr>
              in case saveSession w (storage cm) s3 of
                   Inl e \<Rightarrow> Inl (e, cm\<lparr>session := Some s3\<rparr>)
                 | Inr st \<Rightarrow> Inr (cm\<lparr>session := Some s3, storage := st\<rparr>))"

text \<open>The manager after a call, whether it returned or threw.\<close>

definition managerAfter :: "error \<times> ContextManager + ContextManager \<Rightarrow> ContextManager" where
  "managerAfter r = (case r of Inl (e, cm) \<Rightarrow> cm | Inr cm \<Rightarrow> cm)"

definition managerAfterWith :: "error \<times> ContextManager + ContextManager \<times> 'a \<Rightarrow> ContextManager" where
  "managerAfterWith r = (case r of Inl (e, cm) \<Rightarrow> cm | Inr (cm, x) \<Rightarrow> cm)"


subsection \<open>Public operations\<close>

text \<open>
  \<open>initSession\<close>: \<open>sid\<close> and \<open>now\<close> are the values of \<open>nanoid(10)\<close> and
  \<open>Date.now()\<close> inside \<open>createSession\<close>. When \<open>createSession\<close> throws, the session
  of the manager is the one it had.
\<close>

definition initSession ::
  "SessionWrites \<Rightarrow> ContextManager \<Rightarrow> jstring \<Rightarrow> int \<Rightarrow> jstring \<Rightarrow> jstring
     \<Rightarrow> error \<times> ContextManager + ContextManager \<times> Session" where
  "initSession w cm sid now q wd =
     (case createSession w (storage cm) sid now q wd of
        Inl (e, st) \<Rightarrow> Inl (e, cm\<lparr>storage := st\<rparr>)
      | Inr (st, s) \<Rightarrow>
          let s' = s\<lparr>budget := calculateBudget (cm\<lparr>session := Some s\<rparr>)\<rparr>
          in Inr (cm\<lparr>storage := st, session := Some s'\<rparr>, s'))"

record AddParams =
  p_role :: Role
  p_content :: jstring
  p_metadata :: "Metadata option"

text \<open>
  \<open>addMessage\<close>: \<open>nano\<close> is the value of \<open>nanoid(8)\<close>, \<open>now\<close> of \<open>Date.now()\<close>,
  and \<open>w\<close> gives the outcomes of its writes: of the original content, of the session at
  the end of \<open>compress\<close>, and of the session at its own end. The result is the error
  thrown with the manager it leaves, or the new manager and the message returned. The
  first part saves the original of a compressible message and gives the storage and the
  session with its path; the second pushes the message and updates the budget.
\<close>

definition saveOriginal ::
  "rejection \<Rightarrow> ContextManager \<Rightarrow> Session \<Rightarrow> ChatMessage \<Rightarrow> error + ContextStorage \<times> Session" where
  "saveOriginal w cm s message =
     (if isCompressible message
      then case saveMessageContent w (storage cm) (sessionId s) message of
             Inl e \<Rightarrow> Inl e
           | Inr (st', filePath) \<Rightarrow>
               Inr (st', s\<lparr>storageLayer := (storageLayer s)
                              \<lparr>messagePaths := mapSet (key message) filePath
                                                  (messagePaths (storageLayer s))\<rparr>\<rparr>)
      else Inr (storage cm, s))"

definition pushMessage ::
  "ContextManager \<Rightarrow> ContextStorage \<Rightarrow> Session \<Rightarrow> ChatMessage \<Rightarrow> ContextManager" where
  "pushMessage cm st1 s1 message =
     (let s2 = s1\<lparr>messages := messages s1 @ [message],
                  totalTokens := totalTokens s1 + tokens message\<rparr>;
          cm2 = cm\<lparr>storage := st1, session := Some s2\<rparr>
      in cm2\<lparr>session := Some (s2\<lparr>budget := calculateBudget cm2\<rparr>)\<rparr>)"

definition addMessage ::
  "encoder \<Rightarrow> ContextManager \<Rightarrow> jstring \<Rightarrow> int \<Rightarrow> MessageWrites \<Rightarrow> AddParams
     \<Rightarrow> error \<times> ContextManager + ContextManager \<times> ChatMessage" where
  "addMessage enc cm nano now w params =
     (case session cm of
        None \<Rightarrow> Inl (NoActiveSession, cm)
      | Some s \<Rightarrow>
          let tokens' = estimateTokens enc (p_content params);
              message = \<lparr>key = ascii ''msg_'' @ nano, role = p_role params,
                         content = p_content params, tokens = tokens', compressed = False,
                         originalTokens = None, timestamp = now, metadata = p_metadata params\<rparr>
          in case saveOriginal (w_content w) cm s message of
               Inl e \<Rightarrow> Inl (e, cm)
             | Inr (st1, s1) \<Rightarrow>
                 let cm3 = pushMessage cm st1 s1 message in
                 case (if needsCompression cm3 then compress enc (w_compress w) cm3 else Inr cm3) of
                   Inl (e, cm4) \<Rightarrow> Inl (e, cm4)
                 | Inr cm4 \<Rightarrow>
                     (case session cm4 of
                        None \<Rightarrow> Inl (NoActiveSession, cm4)
                      | Some s4 \<Rightarrow>
                          (case saveSession (w_session w) (storage cm4) s4 of
                             Inl e \<Rightarrow> Inl (e, cm4)
                           | Inr st \<Rightarrow> Inr (cm4\<lparr>storage := st\<rparr>, message))))"

definition getMessagesForLLM :: "ContextManager \<Rightarrow> (Role \<times> jstring) list" where
  "getMessagesForLLM cm =
     (case session cm of None \<Rightarrow> [] | Some s \<Rightarrow> map (\<lambda>m. (role m, content m)) (messages s))"

definition getMessages :: "ContextManager \<Rightarrow> ChatMessage list" where
  "getMessages cm = (case session cm of None \<Rightarrow> [] | Some s \<Rightarrow> messages s)"

text \<open>
  The failure markers of the synthesis filter: U+6267 U+884C U+5931 U+8D25
  ("execution failed") and U+9519 U+8BEF followed by a colon ("error:").
\<close>

definition failedMarker :: jstring where
  "failedMarker = [25191, 34892, 22833, 36133]"

definition errorMarker :: jstring where
  "errorMarker = [38169, 35823] @ ascii '':''"

text \<open>The loop body of \<open>getMessagesForSynthesis\<close>: what one message adds to the result.\<close>

definition synthesisStep :: "ChatMessage \<Rightarrow> SynthesisMessage list" where
  "synthesisStep msg =
     (if role msg = Assistant
      then [\<lparr>sm_key = key msg, sm_role = role msg, sm_content = content msg,
              sm_toolName = None, sm_source = None, sm_compressed = compressed msg\<rparr>]
      else if \<not> truthy (metaToolName msg)
      then [\<lparr>sm_key = key msg, sm_role = role msg, sm_content = content msg,
              sm_toolName = None, sm_source = None, sm_compressed = compressed msg\<rparr>]
      else if includes_str (content msg) failedMarker \<or> includes_str (content msg) errorMarker
      then []
      else if metaToolName msg = Some (ascii ''list_dir'') then []
      else if metaToolName msg = Some (ascii ''ripgrep'') then []
      else if metaToolName msg = Some (ascii ''read_file'')
      then [\<lparr>sm_key = key msg, sm_role = role msg, sm_content = content msg,
              sm_toolName = metaToolName msg, sm_source = metaSource msg,
              sm_compressed = compressed msg\<rparr>]
      else [\<lparr>sm_key = key msg, sm_role = role msg, sm_content = content msg,
              sm_toolName = metaToolName msg, sm_source = metaSource msg,
              sm_compressed = compressed msg\<rparr>])"

definition getMessagesForSynthesis :: "ContextManager \<Rightarrow> SynthesisMessage list" where
  "getMessagesForSynthesis cm =
     (case session cm of None \<Rightarrow> [] | Some s \<Rightarrow> concat (map synthesisStep (messages s)))"

text \<open>
  \<open>recall\<close>. The four failure payloads carry fixed Chinese texts; the one for a missing
  key lists up to five keys of compressed messages.
\<close>

definition recall :: "ContextManager \<Rightarrow> jstring \<Rightarrow> RecallResult" where
  "recall cm requestKey =
     (case session cm of
        None \<Rightarrow>
          \<lparr>success = False,
           rr_content = [38169, 35823] @ ascii '': '' @ [27809, 26377, 27963, 36291, 30340, 20250, 35805],
           rr_tokens = 0, rr_source = None\<rparr>
      | Some s \<Rightarrow>
          if requestKey = []
          then \<lparr>success = False,
                rr_content = [38169, 35823] @ ascii '': '' @ [32570, 23569] @ ascii '' key ''
                  @ [21442, 25968, 12290, 35831, 25552, 20379, 35201, 21484, 22238, 30340, 28040, 24687]
                  @ ascii '' key'' @ [65292, 26684, 24335, 22914] @ ascii '' msg_xxxxxxxx'',
                rr_tokens = 0, rr_source = None\<rparr>
          else case List.find (\<lambda>m. key m = requestKey) (messages s) of
                 None \<Rightarrow>
                   let compressedMessages = take 5 (map key (filter compressed (messages s)));
                       hint = (if length compressedMessages > 0
                               then [10, 21487, 29992, 30340, 21387, 32553, 28040, 24687] @ ascii '' key: ''
                                    @ join (ascii '', '') compressedMessages
                               else [10, 24403, 21069, 27809, 26377, 34987, 21387, 32553, 30340, 28040, 24687, 12290])
                   in \<lparr>success = False,
                       rr_content = [38169, 35823] @ ascii '': '' @ [26410, 25214, 21040] @ ascii '' key ''
                         @ [20026] @ ascii '' '' @ [34] @ requestKey @ [34] @ ascii '' ''
                         @ [30340, 28040, 24687, 12290] @ hint,
                       rr_tokens = 0, rr_source = None\<rparr>
               | Some message \<Rightarrow>
                   if \<not> compressed message
                   then \<lparr>success = True,
                         rr_content = [27880, 24847] @ ascii '': ''
                           @ [35813, 28040, 24687, 26410, 34987, 21387, 32553, 65292, 20197, 19979,
                              26159, 24403, 21069, 20869, 23481] @ ascii '':'' @ [10, 10]
                           @ content message,
                         rr_tokens = tokens message, rr_source = metaSource message\<rparr>
                   else case loadMessageContent (storage cm) (sessionId s) (key message) of
                          None \<Rightarrow>
                            \<lparr>success = False,
                             rr_content = [38169, 35823] @ ascii '': ''
                               @ [26080, 27861, 20174, 23384, 20648, 20013, 21152, 36733] @ ascii '' key ''
                               @ [34] @ requestKey @ [34] @ ascii '' ''
                               @ [30340, 21407, 22987, 20869, 23481, 12290, 23384, 20648, 25991, 20214,
                                  21487, 33021, 24050, 20002, 22833, 12290],
                             rr_tokens = 0, rr_source = None\<rparr>
                        | Some original \<Rightarrow>
                            \<lparr>success = True, rr_content = content original,
                             rr_tokens = tokens original, rr_source = metaSource original\<rparr>)"

definition setSystemPromptTokens :: "ContextManager \<Rightarrow> int \<Rightarrow> ContextManager" where
  "setSystemPromptTokens cm n =
     (let cm1 = cm\<lparr>systemPromptTokens := n\<rparr>
      in case session cm1 of
           None \<Rightarrow> cm1
         | Some s \<Rightarrow> cm1\<lparr>session := Some (s\<lparr>budget := calculateBudget cm1\<rparr>)\<rparr>)"

definition save :: "rejection \<Rightarrow> ContextManager \<Rightarrow> error \<times> ContextManager + ContextManager" where
  "save w cm =
     (case session cm of
        None \<Rightarrow> Inr cm
      | Some s \<Rightarrow> (case saveSession w (storage cm) s of
                     Inl e \<Rightarrow> Inl (e, cm)
                   | Inr st \<Rightarrow> Inr (cm\<lparr>storage := st\<rparr>)))"


section \<open>Properties of the context manager\<close>

subsection \<open>The compressibility predicate\<close>

definition isCompressible_spec :: "ChatMessage \<Rightarrow> bool" where
  \<comment> \<open>The predicate in the words of the specification.\<close>
  "isCompressible_spec m =
     (\<not> compressed m \<and> metaCompressible m \<noteq> Some False \<and>
      (truthy (metaToolName m) \<or> tokens m \<ge> 200))"

definition shortToolResult :: ChatMessage where
  \<comment> \<open>A \<open>read_file\<close> result of 100 tokens, marked compressible, as the investigator adds it.\<close>
  "shortToolResult =
     \<lparr>key = ascii ''msg_AAAAAAAA'', role = User, content = ascii ''ok'', tokens = 100,
      compressed = False, originalTokens = None, timestamp = 0,
      metadata = Some \<lparr>toolName = Some (ascii ''read_file''), source = Some (ascii ''a.ts''),
                       compressible = Some True\<rparr>\<rparr>"

text \<open>
  C2, as stated, fails: a tool result of fewer than 200 tokens that is not compressed and
  not marked \<open>compressible = false\<close> is compressible by the words of the claim, and
  the guard on \<open>minTokensToCompress\<close>, which the source tests before it looks at the
  tool name, makes it not compressible.
\<close>

theorem isCompressible_short_tool_result:
  "isCompressible_spec shortToolResult \<and> \<not> isCompressible shortToolResult"
  by (simp add: isCompressible_spec_def isCompressible_def shortToolResult_def truthy_def
                metaToolName_def metaCompressible_def minTokensToCompress_def ascii_def)

text \<open>
  C2, amended: a message is compressible iff it is not already compressed, is not
  explicitly marked \<open>compressible = false\<close>, and has at least \<open>minTokensToCompress\<close>
  (200) tokens, whether or not its metadata carries a tool name.
\<close>

theorem isCompressible_iff:
  "isCompressible m =
     (\<not> compressed m \<and> metaCompressible m \<noteq> Some False \<and> tokens m \<ge> minTokensToCompress)"
  by (auto simp: isCompressible_def)

subsection \<open>The synthesis filter\<close>

definition isToolResult :: "ChatMessage \<Rightarrow> bool" where
  \<comment> \<open>A user message whose metadata carries a (non-empty) tool name.\<close>
  "isToolResult m = (role m = User \<and> truthy (metaToolName m))"

definition hasFailureMarker :: "ChatMessage \<Rightarrow> bool" where
  "hasFailureMarker m = (includes_str (content m) failedMarker \<or> includes_str (content m) errorMarker)"

definition kept :: "ChatMessage \<Rightarrow> bool" where
  \<comment> \<open>The messages the amended claim keeps.\<close>
  "kept m = (if isToolResult m
             then \<not> hasFailureMarker m \<and> metaToolName m \<noteq> Some (ascii ''list_dir'')
                  \<and> metaToolName m \<noteq> Some (ascii ''ripgrep'')
             else True)"

definition project :: "ChatMessage \<Rightarrow> SynthesisMessage" where
  \<comment> \<open>The projection of a kept message: tool name and source only for tool results.\<close>
  "project m =
     \<lparr>sm_key = key m, sm_role = role m, sm_content = content m,
      sm_toolName = (if isToolResult m then metaToolName m else None),
      sm_source = (if isToolResult m then metaSource m else None),
      sm_compressed = compressed m\<rparr>"

definition assistantError :: ChatMessage where
  \<comment> \<open>An assistant message whose text is "error: x" in Chinese.\<close>
  "assistantError =
     \<lparr>key = ascii ''msg_BBBBBBBB'', role = Assistant, content = [38169, 35823] @ ascii '': x'',
      tokens = 3, compressed = False, originalTokens = None, timestamp = 0, metadata = None\<rparr>"

definition failedRead :: ChatMessage where
  \<comment> \<open>A \<open>read_file\<close> result that reports an error.\<close>
  "failedRead =
     \<lparr>key = ascii ''msg_CCCCCCCC'', role = User, content = [38169, 35823] @ ascii '': x'',
      tokens = 3, compressed = False, originalTokens = None, timestamp = 0,
      metadata = Some \<lparr>toolName = Some (ascii ''read_file''), source = Some (ascii ''b.ts''),
                       compressible = Some True\<rparr>\<rparr>"

definition managerWith :: "ChatMessage list \<Rightarrow> ContextManager" where
  \<comment> \<open>A manager with the default budget whose session holds the given messages.\<close>
  "managerWith ms =
     \<lparr>storage = \<lparr>base = ascii ''.chibi'', sessions = ascii ''.chibi/sessions'',
                  initialized = True, messageFiles = Map.empty, sessionFiles = Map.empty\<rparr>,
      session = Some \<lparr>sessionId = ascii ''S'', query = ascii ''q'', startedAt = 0,
                      workingDir = ascii ''.'',
                      storageLayer = \<lparr>sessionDir = ascii ''.chibi/sessions/S'', messagePaths = []\<rparr>,
                      messages = ms, totalTokens = sum_list (map tokens ms),
                      budget = \<lparr>total = 262144, used = sum_list (map tokens ms),
                                available = 0,
                                breakdown = \<lparr>systemPrompt = 0,
                                             messagesTokens = sum_list (map tokens ms),
                                             reserved = 65000\<rparr>\<rparr>\<rparr>,
      budgetConfig = \<lparr>contextWindow = 262144, reservedForSynthesis = 30000,
                      reservedForRecalls = 20000, reservedForNextSteps = 15000\<rparr>,
      systemPromptTokens = 0\<rparr>"

text \<open>
  C9, as stated, fails: a message whose content contains a failure marker is not always
  dropped. An assistant message with the marker U+9519 U+8BEF ":" is kept.
\<close>

theorem synthesis_keeps_assistant_with_marker:
  "includes_str (content assistantError) errorMarker \<and>
   map sm_key (getMessagesForSynthesis (managerWith [assistantError])) = [key assistantError]"
  by (simp add: getMessagesForSynthesis_def managerWith_def synthesisStep_def assistantError_def
                errorMarker_def ascii_def)

text \<open>
  C9, amended: the filter drops every tool result (a user message with a tool name)
  whose content contains one of the two failure markers, and every tool result of
  \<open>list_dir\<close> or \<open>ripgrep\<close>; it keeps every assistant message and every user message
  without a tool name whatever their content, and every other tool result
  (\<open>read_file\<close> included), in their order.
\<close>

theorem getMessagesForSynthesis_filter:
  "session cm = Some s \<Longrightarrow>
   getMessagesForSynthesis cm = map project (filter kept (messages s))"
proof -
  have step: "synthesisStep m = (if kept m then [project m] else [])" for m
    by (cases "role m") (auto simp: synthesisStep_def kept_def project_def isToolResult_def
                                   hasFailureMarker_def)
  have "concat (map synthesisStep ms) = map project (filter kept ms)" for ms
    by (induction ms) (simp_all add: step)
  then show "session cm = Some s \<Longrightarrow> ?thesis"
    by (simp add: getMessagesForSynthesis_def)
qed

theorem getMessagesForSynthesis_filter_witness:
  "session (managerWith [assistantError, failedRead, shortToolResult]) \<noteq> None \<and>
   map sm_key (getMessagesForSynthesis (managerWith [assistantError, failedRead, shortToolResult]))
     = [key assistantError, key shortToolResult]"
  using getMessagesForSynthesis_filter
          [of "managerWith [assistantError, failedRead, shortToolResult]"
              "the (session (managerWith [assistantError, failedRead, shortToolResult]))"]
  by (simp add: managerWith_def kept_def project_def isToolResult_def hasFailureMarker_def
                assistantError_def shortToolResult_def failedRead_def truthy_def metaToolName_def
                failedMarker_def errorMarker_def ascii_def)


section \<open>Investigator agent (agent/investigator.ts)\<close>

subsection \<open>Decisions\<close>

text \<open>
  The arguments of a tool call are a JSON object; the agent only passes them on and
  serialises them, so they are values of a type parameter, and \<open>JSON.stringify\<close> and
  \<open>JSON.parse\<close> are parameters (\<open>None\<close> when \<open>JSON.parse\<close> throws).
\<close>

record 'a ToolCall =
  tc_name :: jstring
  tc_arguments :: 'a

datatype 'a AgentDecision =
    ToolCallDecision jstring 'a
  | Delegate jstring jstring
  | Done jstring
  | Thinking jstring
  | InvalidToolCall jstring "jstring option"
  | RequiresSelfCheck jstring
  | HallucinationDetected jstring jstring

record AgentLoopConfig =
  maxIterations :: int
  stuckThreshold :: int
  enableThinking :: bool
  thinkingBudget :: int

subsection \<open>Stuck detection\<close>

text \<open>
  \<open>xs.slice(start)\<close> for an integer \<open>start\<close>: a negative start counts from the end.
  \<open>slice(-0)\<close> is \<open>slice(0)\<close>, the whole array.
\<close>

definition sliceFrom :: "'b list \<Rightarrow> int \<Rightarrow> 'b list" where
  "sliceFrom xs start =
     (if start < 0 then drop (nat (max (int (length xs) + start) 0)) xs
      else drop (nat (min start (int (length xs)))) xs)"

datatype jsError = TypeError

text \<open>
  \<open>isStuck\<close>. Reading \<open>first.type\<close> of an empty \<open>recentDecisions\<close> throws a
  TypeError, which can only happen with a threshold below one.
\<close>

definition isStuck :: "('a \<Rightarrow> jstring) \<Rightarrow> int \<Rightarrow> 'a AgentDecision list \<Rightarrow> jsError + bool" where
  "isStuck stringify threshold decisions =
     (let recentDecisions = sliceFrom decisions (- threshold) in
      if int (length recentDecisions) < threshold then Inr False
      else case recentDecisions of
             [] \<Rightarrow> Inl TypeError
           | first # _ \<Rightarrow>
               (case first of
                  ToolCallDecision firstName firstArgs \<Rightarrow>
                    Inr (list_all (\<lambda>d. case d of
                                          ToolCallDecision n a \<Rightarrow>
                                            n = firstName \<and> stringify a = stringify firstArgs
                                        | _ \<Rightarrow> False) recentDecisions)
                | _ \<Rightarrow> Inr False))"

subsection \<open>Hallucination patterns\<close>

text \<open>
  \<open>HALLUCINATION_PATTERNS\<close>, in the order of the source:
  \<^verbatim>\<open></user>\<close>; \<open>U+5DE5 U+5177 \s*"[^"]+"\s* U+6267 U+884C (U+6210 U+529F | U+5931 U+8D25)\<close>;
  \<^verbatim>\<open>Tool\s*"[^"]+"\s*(executed|completed|failed)\<close> with the \<open>i\<close> flag;
  \<^verbatim>\<open>^File:\s+[^\n]+\nLines:\s+\d+-\d+\<close> with the \<open>m\<close> flag.
\<close>

definition fakeUserTag :: rx where
  "fakeUserTag = lit (ascii ''</user>'')"

definition fakeResultZh :: rx where
  "fakeResultZh =
     seqs [lit [24037, 20855], Star isSpace, chr 34, plus (\<lambda>c. c \<noteq> 34), chr 34, Star isSpace,
           lit [25191, 34892], Grp (Alt (lit [25104, 21151]) (lit [22833, 36133]))]"

definition fakeResultEn :: rx where
  "fakeResultEn =
     seqs [lit_i (ascii ''Tool''), Star isSpace, chr 34, plus (\<lambda>c. c \<noteq> 34), chr 34, Star isSpace,
           Grp (alts [lit_i (ascii ''executed''), lit_i (ascii ''completed''),
                      lit_i (ascii ''failed'')])]"

definition fakeFileHeader :: rx where
  "fakeFileHeader =
     seqs [Bol, lit (ascii ''File:''), plus isSpace, plus (\<lambda>c. c \<noteq> 10), chr 10,
           lit (ascii ''Lines:''), plus isSpace, plus isDigit, chr 45, plus isDigit]"

definition HALLUCINATION_PATTERNS :: "rx list" where
  "HALLUCINATION_PATTERNS = [fakeUserTag, fakeResultZh, fakeResultEn, fakeFileHeader]"

text \<open>\<open>cleanHallucinatedContent\<close> returns \<open>cleaned\<close> and \<open>hasHallucination\<close>.\<close>

definition firstMatchIndex :: "jstring \<Rightarrow> rx \<Rightarrow> nat \<Rightarrow> nat" where
  \<comment> \<open>The body of the loop that lowers \<open>cleanEndIndex\<close>.\<close>
  "firstMatchIndex content' pattern cleanEndIndex =
     (case exec pattern content' of
        Some (index, _, _) \<Rightarrow> if index < cleanEndIndex then index else cleanEndIndex
      | None \<Rightarrow> cleanEndIndex)"

definition cleanHallucinatedContent :: "jstring \<Rightarrow> jstring \<times> bool" where
  "cleanHallucinatedContent content' =
     (let hasHallucination = list_ex (\<lambda>pattern. test pattern content') HALLUCINATION_PATTERNS in
      if \<not> hasHallucination then (content', False)
      else
        let cleanEndIndex = fold (firstMatchIndex content') HALLUCINATION_PATTERNS (length content');
            cleaned = trim (slice content' 0 cleanEndIndex)
        in (cleaned, True))"

subsection \<open>Rescue of tool calls written as text\<close>

text \<open>
  \<open>s.replace(re, template)\<close>: with the \<open>g\<close> flag every match is replaced, without
  it the first one. The template is a function of the captures of the match.
\<close>

definition capture :: "jstring \<Rightarrow> caps \<Rightarrow> nat \<Rightarrow> jstring" where
  \<comment> \<open>The text of capture group \<open>k + 1\<close>.\<close>
  "capture s c k = (if k < length c then slice s (fst (c ! k)) (snd (c ! k)) else [])"

fun rebuild :: "jstring \<Rightarrow> nat \<Rightarrow> (nat \<times> nat \<times> caps) list \<Rightarrow> (caps \<Rightarrow> jstring) \<Rightarrow> jstring" where
  "rebuild s pos [] f = drop pos s"
| "rebuild s pos ((a, b, c) # ms) f = slice s pos a @ f c @ rebuild s b ms f"

definition replaceAll :: "rx \<Rightarrow> (caps \<Rightarrow> jstring) \<Rightarrow> jstring \<Rightarrow> jstring" where
  "replaceAll r f s = rebuild s 0 (matchAllFrom r s 0) f"

definition replaceFirst :: "rx \<Rightarrow> (caps \<Rightarrow> jstring) \<Rightarrow> jstring \<Rightarrow> jstring" where
  "replaceFirst r f s =
     (case exec r s of None \<Rightarrow> s | Some (a, b, c) \<Rightarrow> take a s @ f c @ drop b s)"

definition anyChar :: "nat \<Rightarrow> bool" where
  "anyChar c = True"

definition isColon :: "nat \<Rightarrow> bool" where
  \<comment> \<open>The class of the full-width and the ASCII colon.\<close>
  "isColon c = (c = 65306 \<or> c = 58)"

text \<open>
  \<open>tryFixJson\<close>: the five replacements, then \<open>JSON.parse\<close>, and on failure
  \<open>JSON.parse\<close> of the first \<open>{...}\<close> of the repaired text. The text to repair starts
  with a brace, so what \<open>JSON.parse\<close> returns is an object, hence truthy.
\<close>

definition tryFixJson :: "(jstring \<Rightarrow> 'a option) \<Rightarrow> jstring \<Rightarrow> 'a option" where
  "tryFixJson jsonParse malformed =
     (let s1 = replaceAll (chr 39) (\<lambda>c. [34]) malformed;
          s2 = replaceAll (seqs [chr 44, Star isSpace, Grp (Cls (\<lambda>c. c = 125 \<or> c = 93))])
                          (\<lambda>c. capture s1 c 0) s1;
          s3 = replaceAll (seqs [Grp (Alt (chr 123) (chr 44)), Star isSpace, Grp (plus isWord),
                                 Star isSpace, chr 58])
                          (\<lambda>c. capture s2 c 0 @ [34] @ capture s2 c 1 @ [34, 58]) s2;
          s4 = replaceAll (chr 65306) (\<lambda>c. [58]) s3;
          fixed = replaceFirst (seqs [chr 125, Star anyChar, Eol]) (\<lambda>c. [125]) s4
      in case jsonParse fixed of
           Some v \<Rightarrow> Some v
         | None \<Rightarrow>
             (case exec (seqs [chr 123, Star anyChar, chr 125]) fixed of
                Some (a, b, _) \<Rightarrow> jsonParse (slice fixed a b)
              | None \<Rightarrow> None))"

text \<open>
  The three rescue patterns: U+6211 U+5C06 U+4F7F U+7528 \<open>\s*(\w+)\s*\<close> U+5DE5 U+5177
  \<open>[:]\s*(\{[\s\S]*\})\<close> with either colon;
  \<^verbatim>\<open>I(?:'ll| will) use (?:the )?(\w+) tool[:]?\s*(\{[\s\S]*\})\<close> with the \<open>i\<close> flag;
  and a word, the rest of its line, and a fenced block holding \<open>{...}\<close>.
\<close>

definition zhPattern :: rx where
  "zhPattern =
     seqs [lit [25105, 23558, 20351, 29992], Star isSpace, Grp (plus isWord), Star isSpace,
           lit [24037, 20855], Cls isColon, Star isSpace,
           Grp (seqs [chr 123, Star anyChar, chr 125])]"

definition enPattern :: rx where
  "enPattern =
     seqs [chr_i 73, Alt (lit_i ([39] @ ascii ''ll'')) (lit_i (ascii '' will'')),
           lit_i (ascii '' use ''), Opt (lit_i (ascii ''the '')), Grp (plus isWord),
           lit_i (ascii '' tool''), Opt (Cls isColon), Star isSpace,
           Grp (seqs [chr 123, Star anyChar, chr 125])]"

definition codeBlockPattern :: rx where
  "codeBlockPattern =
     seqs [Grp (plus isWord), Star (\<lambda>c. \<not> isLineTerminator c), lit [96, 96, 96],
           Opt (lit (ascii ''json'')), Star isSpace,
           Grp (seqs [chr 123, StarLazy anyChar, chr 125]), Star isSpace, lit [96, 96, 96]]"

fun rescueWith :: "(jstring \<Rightarrow> 'a option) \<Rightarrow> jstring \<Rightarrow> rx list \<Rightarrow> 'a ToolCall option" where
  "rescueWith jsonParse content' [] = None"
| "rescueWith jsonParse content' (pattern # rest) =
     (case exec pattern content' of
        None \<Rightarrow> rescueWith jsonParse content' rest
      | Some (a, b, c) \<Rightarrow>
          (case tryFixJson jsonParse (capture content' c 1) of
             Some fixedJson \<Rightarrow> Some \<lparr>tc_name = capture content' c 0, tc_arguments = fixedJson\<rparr>
           | None \<Rightarrow> rescueWith jsonParse content' rest))"

definition rescueToolCallFromContent :: "(jstring \<Rightarrow> 'a option) \<Rightarrow> jstring \<Rightarrow> 'a ToolCall option" where
  "rescueToolCallFromContent jsonParse content' =
     rescueWith jsonParse content' [zhPattern, enPattern, codeBlockPattern]"

subsection \<open>Decision parsing\<close>

definition completeMarker :: jstring where
  "completeMarker = ascii ''[INVESTIGATION_COMPLETE]''"

definition isToolCallDecision :: "'a AgentDecision \<Rightarrow> bool" where
  "isToolCallDecision d = (case d of ToolCallDecision _ _ \<Rightarrow> True | _ \<Rightarrow> False)"

text \<open>\<open>decisions.filter(d => d.type === 'tool_call').pop()\<close>, reduced to its name.\<close>

definition lastToolCallName :: "'a AgentDecision list \<Rightarrow> jstring option" where
  "lastToolCallName decisions =
     (case rev (filter isToolCallDecision decisions) of
        ToolCallDecision n _ # _ \<Rightarrow> Some n
      | _ \<Rightarrow> None)"

definition actionWords :: "jstring list" where
  \<comment> \<open>The six Chinese verbs of the thinking patterns: look at, check, search, look up, read, analyse.\<close>
  "actionWords = [[26597, 30475], [26816, 26597], [25628, 32034], [26597, 25214], [35835, 21462],
                  [20998, 26512]]"

definition textToolCallPatterns :: "rx list" where
  "textToolCallPatterns =
     [seqs [lit [25105, 23558, 20351, 29992], Star isSpace, Grp (plus isWord), Star isSpace,
            lit [24037, 20855]],
      seqs [chr_i 73, Alt (lit_i ([39] @ ascii ''ll'')) (lit_i (ascii '' will'')),
            lit_i (ascii '' use ''), Opt (lit_i (ascii ''the '')), Grp (plus isWord),
            lit_i (ascii '' tool'')],
      seqs [lit [20351, 29992], Star isSpace, Grp (plus isWord), Star isSpace, lit [24037, 20855]]]"

definition thinkingPatterns :: "rx list" where
  "thinkingPatterns =
     [seqs [lit_i (ascii ''let me ''),
            Grp (alts (map (lit_i \<circ> ascii) [''check'', ''look'', ''search'', ''find'', ''read'',
                                             ''examine'', ''analyze'']))],
      seqs [chr_i 73,
            Grp (alts [lit_i ([39] @ ascii ''ll''), lit_i (ascii '' will''), lit_i (ascii '' should''),
                       lit_i (ascii '' need to'')]),
            chr_i 32,
            Grp (alts (map (lit_i \<circ> ascii) [''use'', ''check'', ''look'', ''search'', ''find'',
                                             ''read'', ''analyze'']))],
      seqs [lit [38656, 35201], Grp (alts (map lit actionWords))],
      seqs [lit [35753, 25105], Grp (alts (map lit actionWords))],
      seqs [lit [25105], Grp (alts [lit [26469], lit [38656, 35201], lit [24212, 35813]]),
            Grp (alts (map lit actionWords))]]"

fun firstTextToolCall :: "jstring \<Rightarrow> rx list \<Rightarrow> jstring option" where
  "firstTextToolCall content' [] = None"
| "firstTextToolCall content' (pattern # rest) =
     (case exec pattern content' of
        Some (a, b, c) \<Rightarrow> Some (capture content' c 0)
      | None \<Rightarrow> firstTextToolCall content' rest)"

definition parseDecision ::
  "(jstring \<Rightarrow> 'a option) \<Rightarrow> 'a AgentDecision list \<Rightarrow> jstring \<Rightarrow> 'a ToolCall list option
     \<Rightarrow> 'a AgentDecision" where
  "parseDecision jsonParse decisions content' toolCalls =
     (case (case toolCalls of Some (tc # _) \<Rightarrow> Some tc | _ \<Rightarrow> None) of
        Some tc \<Rightarrow> ToolCallDecision (tc_name tc) (tc_arguments tc)
      | None \<Rightarrow>
     (case rescueToolCallFromContent jsonParse content' of
        Some rescued \<Rightarrow> ToolCallDecision (tc_name rescued) (tc_arguments rescued)
      | None \<Rightarrow>
     (let (cleanedContent, hasHallucination) = cleanHallucinatedContent content' in
      if hasHallucination then HallucinationDetected content' cleanedContent
      else if includes_str content' completeMarker
      then (if lastToolCallName decisions \<noteq> Some (ascii ''think'')
            then RequiresSelfCheck content'
            else Done content')
      else case firstTextToolCall content' textToolCallPatterns of
             Some detected \<Rightarrow> InvalidToolCall content' (Some detected)
           | None \<Rightarrow>
               if list_ex (\<lambda>pattern. test pattern content') thinkingPatterns
               then Thinking content'
               else Done content')))"


section \<open>Properties of the investigator\<close>

subsection \<open>Stuck detection\<close>

definition lastN :: "nat \<Rightarrow> 'b list \<Rightarrow> 'b list" where
  "lastN n xs = drop (length xs - n) xs"

text \<open>
  The condition of the specification: at least \<open>n\<close> decisions exist and the last
  \<open>n\<close> are all tool calls with one name and one serialisation of their arguments.
\<close>

definition stuck_spec :: "('a \<Rightarrow> jstring) \<Rightarrow> nat \<Rightarrow> 'a AgentDecision list \<Rightarrow> bool" where
  "stuck_spec stringify n decisions =
     (n \<le> length decisions \<and>
      (\<exists>nm s. \<forall>d \<in> set (lastN n decisions). \<exists>a. d = ToolCallDecision nm a \<and> stringify a = s))"

lemma sliceFrom_neg: "0 < t \<Longrightarrow> sliceFrom xs (- t) = lastN (nat t) xs"
  by (auto simp: sliceFrom_def lastN_def max_def intro: arg_cong[where f="\<lambda>n. drop n xs"])

lemma sameCall_iff:
  "(case d of ToolCallDecision n a \<Rightarrow> n = fn \<and> stringify a = s | _ \<Rightarrow> False)
   = (\<exists>a. d = ToolCallDecision fn a \<and> stringify a = s)"
  by (cases d) auto

text \<open>
  C7. For a threshold of at least one (the default is three), \<open>isStuck\<close> returns
  true iff the last \<open>stuckThreshold\<close> decisions are all tool calls with the same name
  and identically serialised arguments. It returns false when fewer decisions exist,
  when one of them is not a tool call, or when a name or a serialisation differs.
\<close>

theorem isStuck_iff:
  assumes "0 < threshold"
  shows "isStuck stringify threshold decisions = Inr (stuck_spec stringify (nat threshold) decisions)"
proof -
  let ?n = "nat threshold"
  let ?recent = "lastN ?n decisions"
  have rec: "sliceFrom decisions (- threshold) = ?recent"
    using assms by (rule sliceFrom_neg)
  have len: "length ?recent = min ?n (length decisions)"
    by (auto simp: lastN_def)
  show ?thesis
  proof (cases "length decisions < ?n")
    case True
    with assms have "int (length decisions) < threshold" by linarith
    moreover from True len have "length ?recent = length decisions" by simp
    ultimately show ?thesis using True
      by (simp add: isStuck_def rec stuck_spec_def Let_def)
  next
    case False
    then have ge: "?n \<le> length decisions" by simp
    with assms len have "?recent \<noteq> []" by auto
    then obtain first rest where fr: "?recent = first # rest" by (cases ?recent) auto
    have nlt: "\<not> int (length ?recent) < threshold" using len ge assms by simp
    show ?thesis
    proof (cases first)
      case (ToolCallDecision fn fa)
      have "list_all (\<lambda>d. case d of ToolCallDecision n a \<Rightarrow> n = fn \<and> stringify a = stringify fa | _ \<Rightarrow> False) ?recent
            = (\<exists>nm s. \<forall>d \<in> set ?recent. \<exists>a. d = ToolCallDecision nm a \<and> stringify a = s)"
        (is "?L = ?R")
      proof
        assume ?L
        then have "\<forall>d \<in> set ?recent. \<exists>a. d = ToolCallDecision fn a \<and> stringify a = stringify fa"
          by (simp add: list_all_iff sameCall_iff)
        then show ?R by blast
      next
        assume ?R
        then obtain nm s where h: "\<forall>d \<in> set ?recent. \<exists>a. d = ToolCallDecision nm a \<and> stringify a = s"
          by blast
        with fr ToolCallDecision have "nm = fn" "s = stringify fa" by auto
        with h show ?L by (simp add: list_all_iff sameCall_iff)
      qed
      moreover have "isStuck stringify threshold decisions = Inr ?L"
        using nlt fr ToolCallDecision by (simp add: isStuck_def rec Let_def)
      moreover have "stuck_spec stringify ?n decisions = ?R"
        using ge by (simp add: stuck_spec_def)
      ultimately show ?thesis by simp
    qed (use nlt ge fr in \<open>auto simp: isStuck_def rec stuck_spec_def Let_def\<close>)
  qed
qed


theorem isStuck_iff_witness:
  "(0::int) < 3 \<and>
   isStuck (\<lambda>a. a) 3 [Thinking [], ToolCallDecision (ascii ''read_file'') (ascii ''test.go''),
                          ToolCallDecision (ascii ''read_file'') (ascii ''test.go''),
                          ToolCallDecision (ascii ''read_file'') (ascii ''test.go'')] = Inr True \<and>
   isStuck (\<lambda>a. a) 3 [ToolCallDecision (ascii ''read_file'') (ascii ''test.go''),
                          ToolCallDecision (ascii ''read_file'') (ascii ''a.go''),
                          ToolCallDecision (ascii ''read_file'') (ascii ''test.go'')] = Inr False"
  using isStuck_iff [of 3 "\<lambda>a. a" "[Thinking [], ToolCallDecision (ascii ''read_file'') (ascii ''test.go''),
                          ToolCallDecision (ascii ''read_file'') (ascii ''test.go''),
                          ToolCallDecision (ascii ''read_file'') (ascii ''test.go'')]"]
        isStuck_iff [of 3 "\<lambda>a. a" "[ToolCallDecision (ascii ''read_file'') (ascii ''test.go''),
                          ToolCallDecision (ascii ''read_file'') (ascii ''a.go''),
                          ToolCallDecision (ascii ''read_file'') (ascii ''test.go'')]"]
  by (simp add: stuck_spec_def lastN_def ascii_def)



subsection \<open>The self-check gate\<close>

text \<open>
  The condition of the specification: the most recent tool call in the decision history
  exists and is a call of \<open>think\<close>.
\<close>

definition lastToolCallIsThink :: "'a AgentDecision list \<Rightarrow> bool" where
  "lastToolCallIsThink decisions =
     (\<exists>before a after. decisions = before @ [ToolCallDecision (ascii ''think'') a] @ after \<and>
        list_all (\<lambda>d. \<not> isToolCallDecision d) after)"

lemma lastToolCallName_snoc:
  "lastToolCallName (ds @ [d]) =
     (case d of ToolCallDecision n _ \<Rightarrow> Some n | _ \<Rightarrow> lastToolCallName ds)"
  by (cases d) (simp_all add: lastToolCallName_def isToolCallDecision_def)

lemma lastToolCallName_iff:
  "lastToolCallName ds = Some n \<longleftrightarrow>
     (\<exists>before a after. ds = before @ [ToolCallDecision n a] @ after \<and>
        list_all (\<lambda>d. \<not> isToolCallDecision d) after)"
proof (induction ds rule: rev_induct)
  case Nil
  then show ?case by (simp add: lastToolCallName_def)
next
  case (snoc d ds)
  show ?case
  proof (cases "isToolCallDecision d")
    case True
    then obtain m b where d: "d = ToolCallDecision m b"
      by (cases d) (auto simp: isToolCallDecision_def)
    have "(\<exists>before a after. ds @ [d] = before @ [ToolCallDecision n a] @ after \<and>
             list_all (\<lambda>d. \<not> isToolCallDecision d) after) \<longleftrightarrow> m = n"
    proof
      assume "\<exists>before a after. ds @ [d] = before @ [ToolCallDecision n a] @ after \<and>
             list_all (\<lambda>d. \<not> isToolCallDecision d) after"
      then obtain before a after where
        e: "ds @ [d] = before @ [ToolCallDecision n a] @ after"
        and na: "list_all (\<lambda>d. \<not> isToolCallDecision d) after" by blast
      show "m = n"
      proof (cases after rule: rev_cases)
        case Nil
        with e d show ?thesis by simp
      next
        case (snoc as x)
        with e have "x = d" by simp
        with na snoc True show ?thesis by simp
      qed
    next
      assume "m = n"
      then have "ds @ [d] = ds @ [ToolCallDecision n b] @ [] \<and>
                 list_all (\<lambda>d. \<not> isToolCallDecision d) ([] :: 'a AgentDecision list)"
        using d by simp
      then show "\<exists>before a after. ds @ [d] = before @ [ToolCallDecision n a] @ after \<and>
             list_all (\<lambda>d. \<not> isToolCallDecision d) after"
        by blast
    qed
    then show ?thesis by (simp add: lastToolCallName_snoc d)
  next
    case False
    then have l: "lastToolCallName (ds @ [d]) = lastToolCallName ds"
      by (cases d) (simp_all add: lastToolCallName_snoc isToolCallDecision_def)
    have "(\<exists>before a after. ds @ [d] = before @ [ToolCallDecision n a] @ after \<and>
             list_all (\<lambda>d. \<not> isToolCallDecision d) after) \<longleftrightarrow>
          (\<exists>before a after. ds = before @ [ToolCallDecision n a] @ after \<and>
             list_all (\<lambda>d. \<not> isToolCallDecision d) after)"
    proof
      assume "\<exists>before a after. ds @ [d] = before @ [ToolCallDecision n a] @ after \<and>
             list_all (\<lambda>d. \<not> isToolCallDecision d) after"
      then obtain before a after where
        e: "ds @ [d] = before @ [ToolCallDecision n a] @ after"
        and na: "list_all (\<lambda>d. \<not> isToolCallDecision d) after" by blast
      show "\<exists>before a after. ds = before @ [ToolCallDecision n a] @ after \<and>
             list_all (\<lambda>d. \<not> isToolCallDecision d) after"
      proof (cases after rule: rev_cases)
        case Nil
        with e have "d = ToolCallDecision n a" by simp
        with False show ?thesis by (simp add: isToolCallDecision_def)
      next
        case (snoc as x)
        with e have "ds = before @ [ToolCallDecision n a] @ as" by simp
        moreover from na snoc have "list_all (\<lambda>d. \<not> isToolCallDecision d) as" by simp
        ultimately show ?thesis by blast
      qed
    next
      assume "\<exists>before a after. ds = before @ [ToolCallDecision n a] @ after \<and>
             list_all (\<lambda>d. \<not> isToolCallDecision d) after"
      then obtain before a after where
        e: "ds = before @ [ToolCallDecision n a] @ after"
        and na: "list_all (\<lambda>d. \<not> isToolCallDecision d) after" by blast
      from e have "ds @ [d] = before @ [ToolCallDecision n a] @ (after @ [d])" by simp
      moreover from na False have "list_all (\<lambda>d. \<not> isToolCallDecision d) (after @ [d])" by simp
      ultimately show "\<exists>before a after. ds @ [d] = before @ [ToolCallDecision n a] @ after \<and>
             list_all (\<lambda>d. \<not> isToolCallDecision d) after" by blast
    qed
    with snoc.IH l show ?thesis by simp
  qed
qed

text \<open>
  C4. A response with no structured tool call, no rescued tool call and no
  hallucination pattern whose content contains \<open>[INVESTIGATION_COMPLETE]\<close> is
  parsed to \<open>done\<close> with the content as result iff the most recent tool call of the
  history is \<open>think\<close>, and to \<open>requires_self_check\<close> otherwise, also when the
  history has no tool call.
\<close>

theorem parseDecision_complete_gate:
  assumes "toolCalls = None \<or> toolCalls = Some []"
      and "rescueToolCallFromContent jsonParse content' = None"
      and "\<not> snd (cleanHallucinatedContent content')"
      and "includes_str content' completeMarker"
  shows "parseDecision jsonParse decisions content' toolCalls =
           (if lastToolCallIsThink decisions then Done content' else RequiresSelfCheck content')"
proof -
  have "lastToolCallIsThink decisions \<longleftrightarrow> lastToolCallName decisions = Some (ascii ''think'')"
    by (simp add: lastToolCallIsThink_def lastToolCallName_iff)
  then show ?thesis using assms
    by (auto simp: parseDecision_def split: prod.splits)
qed

text \<open>The definitions to unfold when a pattern is run on a concrete string.\<close>

lemmas rx_eval =
  test_def exec_def execAt_def run_Seq_feed chr_def chr_i_def lit_def lit_i_def plus_def ascii_def
  isLineTerminator_def isSpace_def isDigit_def isWord_def anyChar_def isColon_def

lemma marker_no_rescue:
  "rescueToolCallFromContent (\<lambda>s. None :: unit option) (ascii ''[INVESTIGATION_COMPLETE]'') = None"
  by (simp add: rescueToolCallFromContent_def zhPattern_def enPattern_def codeBlockPattern_def
                rx_eval del: run.simps(3))

lemma marker_no_hallucination:
  "cleanHallucinatedContent (ascii ''[INVESTIGATION_COMPLETE]'') = (ascii ''[INVESTIGATION_COMPLETE]'', False)"
  by (simp add: cleanHallucinatedContent_def HALLUCINATION_PATTERNS_def fakeUserTag_def
                fakeResultZh_def fakeResultEn_def fakeFileHeader_def rx_eval del: run.simps(3))

lemma lastToolCallIsThink_eq:
  "lastToolCallIsThink ds = (lastToolCallName ds = Some (ascii ''think''))"
  by (simp add: lastToolCallIsThink_def lastToolCallName_iff)

theorem parseDecision_complete_gate_witness:
  "rescueToolCallFromContent (\<lambda>s. None :: unit option) (ascii ''[INVESTIGATION_COMPLETE]'') = None \<and>
   \<not> snd (cleanHallucinatedContent (ascii ''[INVESTIGATION_COMPLETE]'')) \<and>
   includes_str (ascii ''[INVESTIGATION_COMPLETE]'') completeMarker \<and>
   parseDecision (\<lambda>s. None) [ToolCallDecision (ascii ''read_file'') (), ToolCallDecision (ascii ''think'') (), Thinking []]
      (ascii ''[INVESTIGATION_COMPLETE]'') None = Done (ascii ''[INVESTIGATION_COMPLETE]'') \<and>
   parseDecision (\<lambda>s. None) [ToolCallDecision (ascii ''think'') (), ToolCallDecision (ascii ''read_file'') ()]
      (ascii ''[INVESTIGATION_COMPLETE]'') (Some []) = RequiresSelfCheck (ascii ''[INVESTIGATION_COMPLETE]'') \<and>
   parseDecision (\<lambda>s. None :: unit option) []
      (ascii ''[INVESTIGATION_COMPLETE]'') None = RequiresSelfCheck (ascii ''[INVESTIGATION_COMPLETE]'')"
proof -
  have inc: "includes_str (ascii ''[INVESTIGATION_COMPLETE]'') completeMarker"
    by (simp add: completeMarker_def ascii_def)
  have nh: "\<not> snd (cleanHallucinatedContent (ascii ''[INVESTIGATION_COMPLETE]''))"
    by (simp add: marker_no_hallucination)
  note g = parseDecision_complete_gate [OF _ marker_no_rescue nh inc]
  show ?thesis
    using g [of None "[ToolCallDecision (ascii ''read_file'') (), ToolCallDecision (ascii ''think'') (), Thinking []]"]
          g [of "Some []" "[ToolCallDecision (ascii ''think'') (), ToolCallDecision (ascii ''read_file'') ()]"]
          g [of None "[]"] inc nh marker_no_rescue
    by (simp add: lastToolCallIsThink_eq lastToolCallName_def isToolCallDecision_def ascii_def)
qed

subsection \<open>Hallucination scrubbing\<close>

text \<open>The ends of the matches from a position, without order and captures.\<close>

definition ends :: "rx \<Rightarrow> jstring \<Rightarrow> nat \<Rightarrow> nat set" where
  "ends r s i = fst ` set (run r s i [])"

lemma set_run_Seq:
  "set (run (Seq a b) s i c) = (\<Union>p \<in> set (run a s i c). set (run b s (fst p) (snd p)))"
  by (simp add: case_prod_beta)

lemma fst_run_Grp: "fst ` set (run (Grp a) s i c) = fst ` set (run a s i c)"
  by (simp add: image_image case_prod_beta)

lemma run_caps_irrelevant: "fst ` set (run r s i c) = fst ` set (run r s i d)"
proof (induction r arbitrary: i c d)
  case (Seq a b)
  have A: "fst ` set (run (Seq a b) s i c) = (\<Union>k \<in> fst ` set (run a s i c). fst ` set (run b s k []))" for c
  proof -
    have "fst ` set (run (Seq a b) s i c) = (\<Union>p \<in> set (run a s i c). fst ` set (run b s (fst p) (snd p)))"
      unfolding set_run_Seq by (rule image_UN)
    also have "\<dots> = (\<Union>p \<in> set (run a s i c). fst ` set (run b s (fst p) []))"
      using Seq.IH(2) by (intro SUP_cong refl) blast
    finally show ?thesis by simp
  qed
  show ?case unfolding A by (simp only: Seq.IH(1)[of i c d])
next
  case (Grp a)
  then show ?case unfolding fst_run_Grp by blast
next
  case (Alt a b)
  then show ?case by (simp add: image_Un) blast 
next
  case (Opt a)
  then show ?case by (simp add: image_Un) blast
qed (auto simp: image_image)


lemma ends_any: "fst ` set (run r s i c) = ends r s i"
  unfolding ends_def by (rule run_caps_irrelevant)

lemma ends_Seq: "ends (Seq a b) s i = (\<Union>k \<in> ends a s i. ends b s k)"
proof -
  have "ends (Seq a b) s i = (\<Union>p \<in> set (run a s i []). fst ` set (run b s (fst p) (snd p)))"
    unfolding ends_def set_run_Seq by (rule image_UN)
  also have "\<dots> = (\<Union>p \<in> set (run a s i []). ends b s (fst p))"
    by (simp only: ends_any)
  also have "\<dots> = (\<Union>k \<in> fst ` set (run a s i []). ends b s k)"
    by simp
  finally show ?thesis by (simp only: ends_def)
qed

lemma ends_Star: "ends (Star P) s i = {i .. i + length (takeWhile P (drop i s))}"
proof -
  have "(\<lambda>k. i + k) ` {0..<Suc n} = {i .. i + n}" for n
  proof (intro set_eqI iffI)
    fix x assume "x \<in> {i .. i + n}"
    then have "x = i + (x - i)" "x - i \<in> {0..<Suc n}" by auto
    then show "x \<in> (\<lambda>k. i + k) ` {0..<Suc n}" by (rule image_eqI)
  qed auto
  then show ?thesis by (simp add: ends_def image_image del: upt_Suc)
qed

lemma ends_StarLazy: "ends (StarLazy P) s i = {i .. i + length (takeWhile P (drop i s))}"
proof -
  have "(\<lambda>k. i + k) ` {0..<Suc n} = {i .. i + n}" for n
  proof (intro set_eqI iffI)
    fix x assume "x \<in> {i .. i + n}"
    then have "x = i + (x - i)" "x - i \<in> {0..<Suc n}" by auto
    then show "x \<in> (\<lambda>k. i + k) ` {0..<Suc n}" by (rule image_eqI)
  qed auto
  then show ?thesis by (simp add: ends_def image_image del: upt_Suc)
qed

lemma ends_simps:
  "ends Eps s i = {i}"
  "ends (Cls P) s i = (if i < length s \<and> P (s ! i) then {Suc i} else {})"
  "ends (Alt a b) s i = ends a s i \<union> ends b s i"
  "ends (Opt a) s i = insert i (ends a s i)"
  "ends Bol s i = (if i = 0 \<or> isLineTerminator (s ! (i - 1)) then {i} else {})"
  "ends Eol s i = (if i = length s then {i} else {})"
  by (simp_all add: ends_def image_Un)

lemma ends_Grp: "ends (Grp a) s i = ends a s i"
  unfolding ends_def by (rule fst_run_Grp)

lemmas ends_eqs = ends_simps ends_Grp ends_Seq ends_Star ends_StarLazy

lemma ends_ge: "j \<in> ends r s i \<Longrightarrow> i \<le> j"
  unfolding ends_def using run_end_ge by fastforce

lemma ends_le: "j \<in> ends r s i \<Longrightarrow> i \<le> length s \<Longrightarrow> j \<le> length s"
proof (induction r arbitrary: i j)
  case (Star P)
  have "length (takeWhile P (drop i s)) \<le> length (drop i s)" by (rule length_takeWhile_le)
  with Star show ?case by (simp add: ends_eqs) linarith
next
  case (StarLazy P)
  have "length (takeWhile P (drop i s)) \<le> length (drop i s)" by (rule length_takeWhile_le)
  with StarLazy show ?case by (simp add: ends_eqs) linarith
next
  case (Seq a b)
  then show ?case by (auto simp: ends_eqs)
qed (auto simp: ends_eqs split: if_splits)

text \<open>A pattern that consumes at least one code unit.\<close>

fun nonnull :: "rx \<Rightarrow> bool" where
  "nonnull (Cls P) = True"
| "nonnull (Seq a b) = (nonnull a \<or> nonnull b)"
| "nonnull (Alt a b) = (nonnull a \<and> nonnull b)"
| "nonnull (Grp a) = nonnull a"
| "nonnull _ = False"

lemma nonnull_gt: "nonnull r \<Longrightarrow> j \<in> ends r s i \<Longrightarrow> i < j"
proof (induction r arbitrary: i j)
  case (Seq a b)
  from Seq.prems(2) obtain k where k: "k \<in> ends a s i" "j \<in> ends b s k"
    by (auto simp: ends_eqs)
  then have "i \<le> k" "k \<le> j" by (auto dest: ends_ge)
  moreover from Seq.prems(1) have "nonnull a \<or> nonnull b" by simp
  ultimately show ?case using Seq.IH k by (metis le_less_trans less_le_trans)
qed (auto simp: ends_eqs split: if_splits)

text \<open>Patterns without \<open>$\<close>, and patterns without \<open>^\<close>.\<close>

fun noEol :: "rx \<Rightarrow> bool" where
  "noEol Eol = False"
| "noEol (Seq a b) = (noEol a \<and> noEol b)"
| "noEol (Alt a b) = (noEol a \<and> noEol b)"
| "noEol (Opt a) = noEol a"
| "noEol (Grp a) = noEol a"
| "noEol _ = True"

fun noBol :: "rx \<Rightarrow> bool" where
  "noBol Bol = False"
| "noBol (Seq a b) = (noBol a \<and> noBol b)"
| "noBol (Alt a b) = (noBol a \<and> noBol b)"
| "noBol (Opt a) = noBol a"
| "noBol (Grp a) = noBol a"
| "noBol _ = True"

lemma takeWhile_take_le: "length (takeWhile P (take n xs)) \<le> length (takeWhile P xs)"
proof (induction xs arbitrary: n)
  case (Cons x xs)
  then show ?case by (cases n) auto
qed simp

text \<open>
  Locality: a match inside the substring \<open>take n (drop a x)\<close> is a match of \<open>x\<close> at the
  shifted position, for a pattern without \<open>$\<close>, provided no \<open>^\<close> is tested at the
  start of the substring unless the substring starts \<open>x\<close>.
\<close>

lemma ends_substring:
  assumes "j \<in> ends r (take n (drop a x)) i"
      and "noEol r" and "noBol r \<or> 0 < i \<or> a = 0"
      and "i \<le> length (take n (drop a x))"
  shows "a + j \<in> ends r x (a + i)"
  using assms
proof (induction r arbitrary: i j)
  case (Cls P)
  then show ?case by (auto simp: ends_eqs split: if_splits)
next
  case (Seq r1 r2)
  let ?t = "take n (drop a x)"
  from Seq.prems(1) obtain k where k: "k \<in> ends r1 ?t i" "j \<in> ends r2 ?t k"
    by (auto simp: ends_eqs)
  have ik: "i \<le> k" using k(1) by (rule ends_ge)
  have kl: "k \<le> length ?t" using k(1) Seq.prems(4) by (rule ends_le)
  have 1: "a + k \<in> ends r1 x (a + i)"
    using Seq.IH(1)[OF k(1)] Seq.prems by auto
  have "noBol r2 \<or> 0 < k \<or> a = 0"
    using Seq.prems(3) ik by auto
  then have 2: "a + j \<in> ends r2 x (a + k)"
    using Seq.IH(2)[OF k(2)] Seq.prems(2) kl by auto
  from 1 2 show ?case by (auto simp: ends_eqs)
next
  case (Star P)
  let ?t = "take n (drop a x)"
  have "drop i ?t = take (n - i) (drop (a + i) x)"
    by (simp add: drop_take add.commute)
  then have "length (takeWhile P (drop i ?t)) \<le> length (takeWhile P (drop (a + i) x))"
    by (simp add: takeWhile_take_le)
  with Star.prems(1) show ?case by (auto simp: ends_eqs)
next
  case (StarLazy P)
  let ?t = "take n (drop a x)"
  have "drop i ?t = take (n - i) (drop (a + i) x)"
    by (simp add: drop_take add.commute)
  then have "length (takeWhile P (drop i ?t)) \<le> length (takeWhile P (drop (a + i) x))"
    by (simp add: takeWhile_take_le)
  with StarLazy.prems(1) show ?case by (auto simp: ends_eqs)
next
  case Bol
  then show ?case by (cases i) (auto simp: ends_eqs split: if_splits)
qed (auto simp: ends_eqs split: if_splits)


lemma run_empty_iff: "run r s i [] = [] \<longleftrightarrow> ends r s i = {}"
  by (simp add: ends_def)

lemma exec_None_iff: "exec r s = None \<longleftrightarrow> (\<forall>i \<le> length s. ends r s i = {})"
proof -
  have "List.find (\<lambda>i. run r s i [] \<noteq> []) [0..<Suc (length s)] = None
        \<longleftrightarrow> (\<forall>i \<le> length s. ends r s i = {})"
    by (auto simp: find_None_iff run_empty_iff simp del: upt_Suc)
  moreover have "List.find (\<lambda>i. run r s i [] \<noteq> []) [0..<Suc (length s)] = Some i
                 \<Longrightarrow> execAt r s i \<noteq> None" for i
    by (auto simp: find_Some_iff execAt_def split: list.splits simp del: upt_Suc)
  ultimately show ?thesis
    by (auto simp: exec_def split: option.splits)
qed

lemma exec_Some_first:
  assumes "exec r s = Some (i, j, c)"
  shows "\<forall>k < i. ends r s k = {}"
proof -
  from assms obtain i' where f: "List.find (\<lambda>i. run r s i [] \<noteq> []) [0..<Suc (length s)] = Some i'"
    and e: "execAt r s i' = Some (i, j, c)"
    by (auto simp: exec_def split: option.splits)
  from e have "i' = i" by (auto simp: execAt_def split: list.splits)
  with f show ?thesis
    by (auto simp: find_Some_iff run_empty_iff simp del: upt_Suc)
qed

lemma test_iff: "test r s \<longleftrightarrow> (\<exists>i \<le> length s. ends r s i \<noteq> {})"
  by (simp add: test_def exec_None_iff)

lemma firstMatchIndex_le: "firstMatchIndex x p n \<le> n"
  by (auto simp: firstMatchIndex_def split: option.splits)

lemma firstMatchIndex_none_before:
  "k < firstMatchIndex x p n \<Longrightarrow> n \<le> length x \<Longrightarrow> ends p x k = {}"
proof (cases "exec p x")
  case None
  assume "k < firstMatchIndex x p n" "n \<le> length x"
  with None have "k \<le> length x" by (simp add: firstMatchIndex_def)
  with None show ?thesis by (simp add: exec_None_iff)
next
  case (Some m)
  assume k: "k < firstMatchIndex x p n"
  obtain i j c where m: "m = (i, j, c)" by (cases m)
  with Some k have "k < i" by (auto simp: firstMatchIndex_def split: if_splits)
  with Some m show ?thesis using exec_Some_first by blast
qed

lemma fold_firstMatchIndex:
  "n \<le> length x \<Longrightarrow>
   fold (firstMatchIndex x) ps n \<le> n \<and>
   (\<forall>p \<in> set ps. \<forall>k < fold (firstMatchIndex x) ps n. ends p x k = {})"
proof (induction ps arbitrary: n)
  case Nil
  then show ?case by simp
next
  case (Cons p ps)
  let ?m = "firstMatchIndex x p n"
  have m: "?m \<le> n" by (rule firstMatchIndex_le)
  with Cons.prems have "?m \<le> length x" by simp
  from Cons.IH[OF this] have ih: "fold (firstMatchIndex x) ps ?m \<le> ?m"
    "\<forall>q \<in> set ps. \<forall>k < fold (firstMatchIndex x) ps ?m. ends q x k = {}" by auto
  have "\<forall>k < fold (firstMatchIndex x) ps ?m. ends p x k = {}"
    using ih(1) firstMatchIndex_none_before[OF _ Cons.prems] by (meson less_le_trans)
  with ih m show ?case by auto
qed

lemma trim_substring:
  "trim s = take (length s - length (takeWhile isSpace s)
                  - length (takeWhile isSpace (rev (dropWhile isSpace s))))
                 (drop (length (takeWhile isSpace s)) s)"
proof -
  have d: "dropWhile isSpace s = drop (length (takeWhile isSpace s)) s"
    by (rule dropWhile_eq_drop)
  have r: "rev (dropWhile P (rev ys)) = take (length ys - length (takeWhile P (rev ys))) ys"
    for P and ys :: jstring
    by (simp add: dropWhile_eq_drop[of P "rev ys"] drop_rev)
  show ?thesis
    unfolding trim_def r by (simp add: d[symmetric]) (simp add: d)
qed


definition noLeadingSpace :: "jstring \<Rightarrow> bool" where
  "noLeadingSpace x = (case x of [] \<Rightarrow> True | c # _ \<Rightarrow> \<not> isSpace c)"

lemma hallucination_patterns_shape:
  "\<forall>p \<in> set HALLUCINATION_PATTERNS. nonnull p \<and> noEol p \<and> (noBol p \<or> p = fakeFileHeader)"
proof -
  have "nonnull fakeUserTag \<and> noEol fakeUserTag \<and> noBol fakeUserTag"
    by (simp add: fakeUserTag_def lit_def chr_def ascii_def)
  moreover have "nonnull fakeResultZh \<and> noEol fakeResultZh \<and> noBol fakeResultZh"
    by (simp add: fakeResultZh_def lit_def chr_def plus_def)
  moreover have "nonnull fakeResultEn \<and> noEol fakeResultEn \<and> noBol fakeResultEn"
    by (simp add: fakeResultEn_def lit_i_def chr_i_def chr_def plus_def ascii_def)
  moreover have "nonnull fakeFileHeader \<and> noEol fakeFileHeader"
    by (simp add: fakeFileHeader_def lit_def chr_def plus_def ascii_def)
  ultimately show ?thesis by (simp add: HALLUCINATION_PATTERNS_def)
qed

lemma clean_when_none:
  "\<forall>p \<in> set HALLUCINATION_PATTERNS. \<not> test p t \<Longrightarrow> cleanHallucinatedContent t = (t, False)"
  by (simp add: cleanHallucinatedContent_def list_ex_iff)

lemma clean_output_clean:
  assumes h: "snd (cleanHallucinatedContent x)"
      and e: "run fakeFileHeader (fst (cleanHallucinatedContent x)) 0 [] = [] \<or> noLeadingSpace x"
  shows "cleanHallucinatedContent (fst (cleanHallucinatedContent x))
           = (fst (cleanHallucinatedContent x), False)"
proof -
  define idx where "idx = fold (firstMatchIndex x) HALLUCINATION_PATTERNS (length x)"
  define s where "s = take idx x"
  define a where "a = length (takeWhile isSpace s)"
  define n where "n = length s - a - length (takeWhile isSpace (rev (dropWhile isSpace s)))"
  define t where "t = take n (drop a x)"
  have ex: "list_ex (\<lambda>p. test p x) HALLUCINATION_PATTERNS"
    using h by (auto simp: cleanHallucinatedContent_def Let_def split: if_splits)
  then have cx: "fst (cleanHallucinatedContent x) = trim s"
    by (simp add: cleanHallucinatedContent_def Let_def slice_def idx_def s_def)
  have fo: "idx \<le> length x" "\<forall>p \<in> set HALLUCINATION_PATTERNS. \<forall>k < idx. ends p x k = {}"
    using fold_firstMatchIndex[of "length x" x HALLUCINATION_PATTERNS] by (auto simp: idx_def)
  have ls: "length s = idx" using fo(1) by (simp add: s_def)
  have al: "a \<le> length s" unfolding a_def by (rule length_takeWhile_le)
  have an: "a + n \<le> idx" using al ls by (simp add: n_def)
  have "trim s = take n (drop a s)"
    unfolding n_def a_def by (rule trim_substring)
  also have "drop a s = take (idx - a) (drop a x)"
    by (simp add: s_def drop_take)
  also have "take n (take (idx - a) (drop a x)) = t"
    using an by (simp add: t_def min_def)
  finally have tt: "trim s = t" .
  have lt: "length t \<le> n" by (simp add: t_def)
  have a0: "a = 0" if "noLeadingSpace x"
  proof (cases x)
    case Nil
    then show ?thesis by (simp add: a_def s_def)
  next
    case (Cons c cs)
    with that have "\<not> isSpace c" by (simp add: noLeadingSpace_def)
    with Cons show ?thesis by (cases idx) (simp_all add: a_def s_def)
  qed
  have "\<not> test p t" if p: "p \<in> set HALLUCINATION_PATTERNS" for p
  proof
    assume "test p t"
    then obtain i j where i: "i \<le> length t" and j: "j \<in> ends p t i"
      by (auto simp: test_iff)
    from p hallucination_patterns_shape
    have sh: "nonnull p" "noEol p" "noBol p \<or> p = fakeFileHeader" by auto
    have ij: "i < j" using sh(1) j by (rule nonnull_gt)
    have jl: "j \<le> length t" using j i by (rule ends_le)
    show False
    proof (cases "noBol p \<or> 0 < i \<or> a = 0")
      case True
      have "a + j \<in> ends p x (a + i)"
        using j sh(2) True i unfolding t_def by (rule ends_substring)
      moreover have "a + i < idx" using ij jl lt an by simp
      ultimately show False using fo(2) p by blast
    next
      case False
      with sh(3) have pf: "p = fakeFileHeader" and i0: "i = 0" and ap: "0 < a" by auto
      from e show False
      proof
        assume "run fakeFileHeader (fst (cleanHallucinatedContent x)) 0 [] = []"
        then have "ends fakeFileHeader t 0 = {}"
          by (simp add: cx tt run_empty_iff)
        with j pf i0 show False by simp
      next
        assume "noLeadingSpace x"
        then have "a = 0" by (rule a0)
        with ap show False by simp
      qed
    qed
  qed
  then have "cleanHallucinatedContent t = (t, False)"
    by (intro clean_when_none) blast
  then show ?thesis by (simp add: cx tt)
qed

text \<open>
  C5, amended: a text with none of the four patterns is returned unchanged; and cleaning
  twice gives the same text as cleaning once whenever the output of the first cleaning
  does not itself begin with a file header (\<open>File: ...\<close>, newline, \<open>Lines: d-d\<close>), in
  particular whenever the input has no leading white space. Only the trimming of
  leading white space can put such a header at the start of a line.
\<close>

theorem cleanHallucinatedContent_twice:
  "(\<not> snd (cleanHallucinatedContent x) \<longrightarrow> fst (cleanHallucinatedContent x) = x) \<and>
   (run fakeFileHeader (fst (cleanHallucinatedContent x)) 0 [] = [] \<or> noLeadingSpace x \<longrightarrow>
      fst (cleanHallucinatedContent (fst (cleanHallucinatedContent x)))
        = fst (cleanHallucinatedContent x))"
proof (cases "snd (cleanHallucinatedContent x)")
  case True
  then show ?thesis using clean_output_clean[of x] by auto
next
  case False
  then have "cleanHallucinatedContent x = (x, False)"
    by (auto simp: cleanHallucinatedContent_def Let_def split: if_splits)
  then show ?thesis by simp
qed


lemmas hallucination_eval =
  cleanHallucinatedContent_def HALLUCINATION_PATTERNS_def fakeUserTag_def fakeResultZh_def
  fakeResultEn_def fakeFileHeader_def firstMatchIndex_def trim_def slice_def

definition indentedHeader :: jstring where
  \<comment> \<open>A quoted file header, indented by one space, followed by a fake closing tag.\<close>
  "indentedHeader = ascii '' File: a'' @ [10] @ ascii ''Lines: 1-2</user>''"

lemma clean_indentedHeader:
  "cleanHallucinatedContent indentedHeader = (ascii ''File: a'' @ [10] @ ascii ''Lines: 1-2'', True)"
  by (simp add: indentedHeader_def hallucination_eval rx_eval del: run.simps(3))

lemma clean_exposedHeader:
  "cleanHallucinatedContent (ascii ''File: a'' @ [10] @ ascii ''Lines: 1-2'') = ([], True)"
  by (simp add: hallucination_eval rx_eval del: run.simps(3))

text \<open>
  C5, as stated, fails: cleaning is not idempotent. In the text below the header is
  indented, so \<open>^File:\<close> does not match; the first cleaning cuts at the fake tag and
  trims the indentation away, and the second cleaning finds the header at the start and
  returns the empty text.
\<close>

theorem cleanHallucinatedContent_not_idempotent:
  "fst (cleanHallucinatedContent (fst (cleanHallucinatedContent indentedHeader)))
     \<noteq> fst (cleanHallucinatedContent indentedHeader)"
  unfolding clean_indentedHeader fst_conv clean_exposedHeader by (simp add: ascii_def)

definition fakeResult :: jstring where
  \<comment> \<open>A sentence, a fake closing tag and a fake tool result.\<close>
  "fakeResult = ascii ''ok'' @ [10, 10] @ ascii ''</user>'' @ [10, 24037, 20855] @ ascii '' '' @ [34]
                @ ascii ''rg'' @ [34] @ ascii '' '' @ [25191, 34892, 25104, 21151]"

lemma clean_fakeResult: "cleanHallucinatedContent fakeResult = (ascii ''ok'', True)"
  by (simp add: fakeResult_def hallucination_eval rx_eval del: run.simps(3))

lemma clean_ok: "cleanHallucinatedContent (ascii ''ok'') = (ascii ''ok'', False)"
  by (simp add: hallucination_eval rx_eval del: run.simps(3))

theorem cleanHallucinatedContent_twice_witness:
  "\<not> snd (cleanHallucinatedContent (ascii ''ok'')) \<and>
   fst (cleanHallucinatedContent (ascii ''ok'')) = ascii ''ok'' \<and>
   run fakeFileHeader (fst (cleanHallucinatedContent fakeResult)) 0 [] = [] \<and>
   fst (cleanHallucinatedContent (fst (cleanHallucinatedContent fakeResult)))
     = fst (cleanHallucinatedContent fakeResult) \<and>
   fst (cleanHallucinatedContent fakeResult) = ascii ''ok''"
proof -
  have r: "run fakeFileHeader (fst (cleanHallucinatedContent fakeResult)) 0 [] = []"
    by (simp add: clean_fakeResult fakeFileHeader_def rx_eval del: run.simps(3))
  show ?thesis
    using cleanHallucinatedContent_twice [of "ascii ''ok''"]
          cleanHallucinatedContent_twice [of fakeResult] r
    by (simp add: clean_ok clean_fakeResult)
qed

section \<open>Properties of compression\<close>

definition sumTokens :: "ChatMessage list \<Rightarrow> int" where
  "sumTokens ms = sum_list (map tokens ms)"

lemma sumTokens_simps [simp]:
  "sumTokens [] = 0"
  "sumTokens (m # ms) = tokens m + sumTokens ms"
  "sumTokens (xs @ ys) = sumTokens xs + sumTokens ys"
  by (simp_all add: sumTokens_def)

lemma sumTokens_update:
  "i < length ms \<Longrightarrow> sumTokens (ms[i := m]) = sumTokens ms - tokens (ms ! i) + tokens m"
proof (induction ms arbitrary: i)
  case (Cons x xs)
  then show ?case by (cases i) auto
qed simp

lemma sumTokens_take_drop: "sumTokens (take j ms) + sumTokens (drop j ms) = sumTokens ms"
  by (metis append_take_drop_id sumTokens_simps(3))

lemma findIndex_Some:
  "findIndex P xs = Some i \<Longrightarrow> i < length xs \<and> P (xs ! i) \<and> (\<forall>j < i. \<not> P (xs ! j))"
proof (induction xs arbitrary: i)
  case (Cons x xs)
  show ?case
  proof (cases "P x")
    case True
    with Cons.prems show ?thesis by simp
  next
    case False
    with Cons.prems obtain k where k: "findIndex P xs = Some k" "i = Suc k" by auto
    from Cons.IH[OF k(1)] False k(2) show ?thesis
      by (auto simp: less_Suc_eq_0_disj)
  qed
qed simp

lemma findIndex_None: "findIndex P xs = None \<longleftrightarrow> (\<forall>x \<in> set xs. \<not> P x)"
  by (induction xs) auto

text \<open>One step of the loop leaves a message alone or replaces it by its placeholder.\<close>

definition stepRel :: "encoder \<Rightarrow> ChatMessage list \<Rightarrow> ChatMessage list \<Rightarrow> bool" where
  "stepRel enc ms ms' =
     (length ms' = length ms \<and>
      (\<forall>i < length ms. ms' ! i = ms ! i \<or>
          (isCompressible (ms ! i) \<and> ms' ! i = compressMessage enc (ms ! i))))"

lemma stepRel_refl: "stepRel enc ms ms"
  by (simp add: stepRel_def)

lemma key_compressMessage [simp]: "key (compressMessage enc m) = key m"
  by (simp add: compressMessage_def Let_def)

lemma compressed_compressMessage [simp]: "compressed (compressMessage enc m)"
  by (simp add: compressMessage_def Let_def)

lemma isCompressible_not_compressed: "isCompressible m \<Longrightarrow> \<not> compressed m"
  by (auto simp: isCompressible_def split: if_splits)

lemma stepRel_keys: "stepRel enc ms ms' \<Longrightarrow> map key ms' = map key ms"
  by (rule nth_equalityI) (auto simp: stepRel_def)

lemma stepRel_trans:
  assumes "stepRel enc ms ms'" "stepRel enc ms' ms''"
  shows "stepRel enc ms ms''"
  unfolding stepRel_def
proof (intro conjI allI impI)
  show "length ms'' = length ms" using assms by (simp add: stepRel_def)
next
  fix i assume i: "i < length ms"
  from assms i have 1: "ms' ! i = ms ! i \<or> (isCompressible (ms ! i) \<and> ms' ! i = compressMessage enc (ms ! i))"
    and 2: "ms'' ! i = ms' ! i \<or> (isCompressible (ms' ! i) \<and> ms'' ! i = compressMessage enc (ms' ! i))"
    by (auto simp: stepRel_def)
  from 1 2 show "ms'' ! i = ms ! i \<or> (isCompressible (ms ! i) \<and> ms'' ! i = compressMessage enc (ms ! i))"
    using isCompressible_not_compressed[of "compressMessage enc (ms ! i)"] by auto
qed

lemma compressLoop_props:
  assumes "compressLoop enc t cs (s, f) = (s', f')"
      and "\<forall>c \<in> set cs. \<forall>m \<in> set (messages s).
             key m = messageKey c \<longrightarrow> \<not> compressed m \<longrightarrow> isCompressible m"
  shows "stepRel enc (messages s) (messages s')
         \<and> totalTokens s' - sumTokens (messages s') = totalTokens s - sumTokens (messages s)
         \<and> s' = s\<lparr>messages := messages s', totalTokens := totalTokens s'\<rparr>
         \<and> ((\<forall>c \<in> set cs. messageKey c \<in> key ` set (take m (messages s)))
              \<longrightarrow> drop m (messages s') = drop m (messages s))"
  using assms
proof (induction cs arbitrary: s f)
  case Nil
  then show ?case by (simp add: stepRel_refl)
next
  case (Cons c cs)
  show ?case
  proof (cases "f \<ge> t")
    case True
    with Cons.prems show ?thesis by (simp add: stepRel_refl)
  next
    case nf: False
    show ?thesis
    proof (cases "findIndex (\<lambda>m. key m = messageKey c) (messages s)")
      case None
      with nf Cons.prems have "compressLoop enc t cs (s, f) = (s', f')" by simp
      from Cons.IH[OF this] Cons.prems(2) show ?thesis by auto
    next
      case (Some i)
      note fi = findIndex_Some[OF Some]
      show ?thesis
      proof (cases "compressed (messages s ! i)")
        case True
        with nf Some Cons.prems have "compressLoop enc t cs (s, f) = (s', f')" by simp
        from Cons.IH[OF this] Cons.prems(2) show ?thesis by auto
      next
        case False
        define msg' where "msg' = compressMessage enc (messages s ! i)"
        define sv where "sv = tokens (messages s ! i) - tokens msg'"
        define s1 where "s1 = s\<lparr>messages := (messages s)[i := msg'], totalTokens := totalTokens s - sv\<rparr>"
        from nf Some False Cons.prems
        have lp: "compressLoop enc t cs (s1, f + sv) = (s', f')"
          by (simp add: Let_def s1_def sv_def msg'_def)
        have ic: "isCompressible (messages s ! i)"
          using Cons.prems(2) fi False by (simp add: nth_mem)
        have "\<forall>c \<in> set cs. \<forall>m \<in> set (messages s1).
                key m = messageKey c \<longrightarrow> \<not> compressed m \<longrightarrow> isCompressible m"
        proof (intro ballI impI)
          fix c' m assume c': "c' \<in> set cs" and m: "m \<in> set (messages s1)"
            and km: "key m = messageKey c'" and nc: "\<not> compressed m"
          from m have "m = msg' \<or> m \<in> set (messages s)"
            using set_update_subset_insert[of "messages s" i msg'] by (auto simp: s1_def)
          with nc have "m \<in> set (messages s)" by (auto simp: msg'_def)
          with Cons.prems(2) c' km nc show "isCompressible m" by simp
        qed
        note ih = Cons.IH[OF lp this]
        have r1: "stepRel enc (messages s) (messages s1)"
          using fi ic by (auto simp: stepRel_def s1_def msg'_def nth_list_update)
        have k1: "map key (messages s1) = map key (messages s)"
          using r1 by (rule stepRel_keys)
        have t1: "totalTokens s1 - sumTokens (messages s1) = totalTokens s - sumTokens (messages s)"
          using fi by (simp add: s1_def sv_def sumTokens_update)
        have rel: "stepRel enc (messages s) (messages s')"
          using r1 ih by (blast intro: stepRel_trans)
        have eq: "s' = s\<lparr>messages := messages s', totalTokens := totalTokens s'\<rparr>"
        proof -
          from ih have "s' = s1\<lparr>messages := messages s', totalTokens := totalTokens s'\<rparr>" by blast
          then show ?thesis by (simp add: s1_def)
        qed
        have tail: "drop m (messages s') = drop m (messages s)"
          if h: "\<forall>c' \<in> set (c # cs). messageKey c' \<in> key ` set (take m (messages s))"
        proof -
          have ks: "key ` set (take m (messages s1)) = key ` set (take m (messages s))"
            using k1 by (metis list.set_map take_map)
          with h ih have d1: "drop m (messages s') = drop m (messages s1)" by simp
          from h obtain x where x: "x \<in> set (take m (messages s))" "key x = messageKey c" by auto
          then obtain j where j: "j < length (take m (messages s))" "take m (messages s) ! j = x"
            by (auto simp: in_set_conv_nth)
          then have "j < m" "messages s ! j = x" by auto
          with x fi have "\<not> j < i" by auto
          with \<open>j < m\<close> have "i < m" by simp
          then have "drop m (messages s1) = drop m (messages s)"
            by (simp add: s1_def)
          with d1 show ?thesis by simp
        qed
        from rel ih t1 eq tail show ?thesis by auto
      qed
    qed
  qed
qed


lemma discardScan_props:
  "\<exists>j \<le> length ms. discardScan t ms (td, f) = (td @ map key (take j ms), f + sumTokens (take j ms))"
proof (induction ms arbitrary: td f)
  case Nil
  then show ?case by simp
next
  case (Cons m ms)
  show ?case
  proof (cases "f \<ge> t")
    case True
    then have "discardScan t (m # ms) (td, f) = (td @ map key (take 0 (m # ms)), f + sumTokens (take 0 (m # ms)))"
      by simp
    then show ?thesis by blast
  next
    case False
    from Cons.IH[of "td @ [key m]" "f + tokens m"] obtain j where
      j: "j \<le> length ms"
      "discardScan t ms (td @ [key m], f + tokens m)
         = ((td @ [key m]) @ map key (take j ms), (f + tokens m) + sumTokens (take j ms))" by blast
    with False have "discardScan t (m # ms) (td, f)
         = (td @ map key (take (Suc j) (m # ms)), f + sumTokens (take (Suc j) (m # ms)))"
      by simp
    moreover have "Suc j \<le> length (m # ms)" using j(1) by simp
    ultimately show ?thesis by blast
  qed
qed

lemma filter_not_in_take:
  "distinct (map f xs) \<Longrightarrow> filter (\<lambda>x. f x \<notin> f ` set (take j xs)) xs = drop j xs"
proof (induction xs arbitrary: j)
  case Nil
  then show ?case by simp
next
  case (Cons x xs)
  show ?case
  proof (cases j)
    case 0
    then show ?thesis by simp
  next
    case (Suc k)
    from Cons.prems have d: "distinct (map f xs)" and nx: "f x \<notin> f ` set xs" by auto
    have "filter (\<lambda>y. f y \<notin> f ` set (take j (x # xs))) xs
          = filter (\<lambda>y. f y \<notin> f ` set (take k xs)) xs"
    proof (intro filter_cong refl)
      fix y assume "y \<in> set xs"
      with nx have "f y \<noteq> f x" by (metis imageI)
      with Suc show "(f y \<notin> f ` set (take j (x # xs))) = (f y \<notin> f ` set (take k xs))"
        by simp
    qed
    with Cons.IH[OF d, of k] Suc show ?thesis by simp
  qed
qed

lemma discardOldestMessages_props:
  assumes "distinct (map key (messages s))"
  shows "\<exists>j \<le> length (messages s) - protectedRecentMessages.
           discardOldestMessages s t
             = s\<lparr>messages := drop j (messages s),
                 totalTokens := totalTokens s - sumTokens (take j (messages s))\<rparr>"
proof -
  let ?ms = "messages s"
  let ?pre = "unprotected ?ms"
  obtain j where j: "j \<le> length ?pre"
    and sc: "discardScan t ?pre ([], 0) = ([] @ map key (take j ?pre), 0 + sumTokens (take j ?pre))"
    using discardScan_props[of ?pre t "[]" 0] by blast
  have lp: "length ?pre = length ?ms - protectedRecentMessages"
    by (simp add: unprotected_def)
  have tk: "take j ?pre = take j ?ms"
    using j lp by (simp add: unprotected_def min_def)
  have "filter (\<lambda>m. key m \<notin> set (map key (take j ?ms))) ?ms = drop j ?ms"
    using filter_not_in_take[OF assms, of j] by simp
  with sc tk have "discardOldestMessages s t
             = s\<lparr>messages := drop j ?ms, totalTokens := totalTokens s - sumTokens (take j ?ms)\<rparr>"
    by (simp add: discardOldestMessages_def)
  with j lp show ?thesis by auto
qed

text \<open>
  What \<open>compress\<close> and \<open>discardOldestMessages\<close> can do to a list of messages: replace
  unprotected messages by their placeholders, then drop a prefix of the unprotected
  part.
\<close>

definition reduced :: "encoder \<Rightarrow> ChatMessage list \<Rightarrow> ChatMessage list \<Rightarrow> bool" where
  "reduced enc ms ms' =
     (\<exists>ms1 j. stepRel enc ms ms1 \<and>
               drop (length ms - protectedRecentMessages) ms1
                 = drop (length ms - protectedRecentMessages) ms \<and>
               j \<le> length ms - protectedRecentMessages \<and> ms' = drop j ms1)"

lemma reduced_refl: "reduced enc ms ms"
  unfolding reduced_def by (rule exI[of _ ms], rule exI[of _ 0]) (simp add: stepRel_refl)

lemma set_sortCandidates: "set (sortCandidates cs) = set cs"
proof -
  have ins: "set (insertCandidate x ys) = insert x (set ys)" for x ys
    by (induction ys) auto
  show ?thesis unfolding sortCandidates_def by (induction cs) (simp_all add: ins)
qed

lemma candidates_compressible:
  assumes "session cm = Some s" and "distinct (map key (messages s))"
      and "c \<in> set (sortCandidates (getCompressionCandidates cm))"
      and "m \<in> set (messages s)" and "key m = messageKey c"
  shows "isCompressible m"
proof -
  from assms(1,3) obtain m' where m': "m' \<in> set (unprotected (messages s))"
    "isCompressible m'" "messageKey c = key m'"
    by (auto simp: set_sortCandidates getCompressionCandidates_def candidateOf_def Let_def)
  then have "m' \<in> set (messages s)" by (auto simp: unprotected_def dest: in_set_takeD)
  with assms(2,4,5) m'(3) have "m = m'"
    by (metis distinct_map inj_onD)
  with m'(2) show ?thesis by simp
qed

lemma candidates_unprotected:
  "session cm = Some s \<Longrightarrow> c \<in> set (sortCandidates (getCompressionCandidates cm)) \<Longrightarrow>
   messageKey c \<in> key ` set (take (length (messages s) - protectedRecentMessages) (messages s))"
  by (auto simp: set_sortCandidates getCompressionCandidates_def unprotected_def candidateOf_def Let_def)

lemma compress_props:
  assumes s: "session cm = Some s" and d: "distinct (map key (messages s))"
  shows "\<exists>s'. session (managerAfter (compress enc w cm)) = Some s'
           \<and> reduced enc (messages s) (messages s')
           \<and> totalTokens s' - sumTokens (messages s') = totalTokens s - sumTokens (messages s)
           \<and> sessionId s' = sessionId s
           \<and> messageFiles (storage (managerAfter (compress enc w cm))) = messageFiles (storage cm)
           \<and> sessions (storage (managerAfter (compress enc w cm))) = sessions (storage cm)"
proof -
  let ?n = "length (messages s) - protectedRecentMessages"
  let ?t = "calculateTokensToFree cm"
  let ?cs = "getCompressionCandidates cm"
  show ?thesis
  proof (cases "?t \<le> 0")
    case True
    with s show ?thesis by (simp add: compress_def managerAfter_def reduced_refl)
  next
    case pos: False
    show ?thesis
    proof (cases "length ?cs = 0")
      case True
      obtain j where j: "j \<le> ?n"
        "discardOldestMessages s ?t
           = s\<lparr>messages := drop j (messages s),
               totalTokens := totalTokens s - sumTokens (take j (messages s))\<rparr>"
        using discardOldestMessages_props[OF d] by blast
      have "reduced enc (messages s) (drop j (messages s))"
        unfolding reduced_def using j(1)
        by (intro exI[of _ "messages s"] exI[of _ j]) (simp add: stepRel_refl)
      moreover have "sumTokens (messages s) = sumTokens (take j (messages s)) + sumTokens (drop j (messages s))"
        by (simp add: sumTokens_take_drop)
      ultimately show ?thesis using s pos True j(2)
        by (simp add: compress_def managerAfter_def Let_def)
    next
      case False
      obtain s1 f1 where l: "compressLoop enc ?t (sortCandidates ?cs) (s, 0) = (s1, f1)"
        by (cases "compressLoop enc ?t (sortCandidates ?cs) (s, 0)")
      have "\<forall>c \<in> set (sortCandidates ?cs). \<forall>m \<in> set (messages s).
             key m = messageKey c \<longrightarrow> \<not> compressed m \<longrightarrow> isCompressible m"
        using candidates_compressible[OF s d] by blast
      from compressLoop_props[OF l this, of ?n] candidates_unprotected[OF s]
      have r1: "stepRel enc (messages s) (messages s1)"
        and t1: "totalTokens s1 - sumTokens (messages s1) = totalTokens s - sumTokens (messages s)"
        and e1: "s1 = s\<lparr>messages := messages s1, totalTokens := totalTokens s1\<rparr>"
        and d1: "drop ?n (messages s1) = drop ?n (messages s)"
        by auto
      have k1: "map key (messages s1) = map key (messages s)" using r1 by (rule stepRel_keys)
      have len1: "length (messages s1) = length (messages s)" using r1 by (simp add: stepRel_def)
      define s2 where "s2 = (if f1 < ?t then discardOldestMessages s1 (?t - f1) else s1)"
      have "\<exists>j \<le> ?n. s2 = s1\<lparr>messages := drop j (messages s1),
                 totalTokens := totalTokens s1 - sumTokens (take j (messages s1))\<rparr>"
      proof (cases "f1 < ?t")
        case True
        with discardOldestMessages_props[of s1 "?t - f1"] d k1 len1 show ?thesis
          by (simp add: s2_def)
      next
        case False
        then have "s2 = s1\<lparr>messages := drop 0 (messages s1),
                 totalTokens := totalTokens s1 - sumTokens (take 0 (messages s1))\<rparr>"
          by (simp add: s2_def)
        then show ?thesis by blast
      qed
      then obtain j where j: "j \<le> ?n"
        and e2: "s2 = s1\<lparr>messages := drop j (messages s1),
                 totalTokens := totalTokens s1 - sumTokens (take j (messages s1))\<rparr>" by blast
      have red: "reduced enc (messages s) (messages s2)"
        unfolding reduced_def using r1 d1 j e2
        by (intro exI[of _ "messages s1"] exI[of _ j]) simp
      have t2: "totalTokens s2 - sumTokens (messages s2) = totalTokens s - sumTokens (messages s)"
        using t1 e2 sumTokens_take_drop[of j "messages s1"] by simp
      have id2: "sessionId s2 = sessionId s"
        using e1 e2 by (metis (no_types, lifting) Session.select_convs(1) Session.surjective Session.update_convs(6,7))
      have "session (managerAfter (compress enc w cm))
              = Some (s2\<lparr>budget := calculateBudget (cm\<lparr>session := Some s2\<rparr>)\<rparr>)"
        "messageFiles (storage (managerAfter (compress enc w cm))) = messageFiles (storage cm)"
        "sessions (storage (managerAfter (compress enc w cm))) = sessions (storage cm)"
        using s pos False l
        by (simp_all add: compress_def managerAfter_def saveSession_def Let_def s2_def
                     split: option.splits)
      with red t2 id2 show ?thesis by simp
    qed
  qed
qed


text \<open>The message \<open>addMessage\<close> builds, and what \<open>saveMessageContent\<close> writes for it.\<close>

definition newMessage :: "encoder \<Rightarrow> jstring \<Rightarrow> int \<Rightarrow> AddParams \<Rightarrow> ChatMessage" where
  "newMessage enc nano now params =
     \<lparr>key = ascii ''msg_'' @ nano, role = p_role params, content = p_content params,
      tokens = estimateTokens enc (p_content params), compressed = False,
      originalTokens = None, timestamp = now, metadata = p_metadata params\<rparr>"

definition storedOf :: "ChatMessage \<Rightarrow> StoredMessage" where
  "storedOf m = \<lparr>st_key = key m, st_role = role m, st_content = content m, st_tokens = tokens m,
                 st_timestamp = timestamp m, st_metadata = metadata m\<rparr>"

lemma compress_budgetConfig:
  "budgetConfig (managerAfter (compress enc w cm)) = budgetConfig cm"
  by (simp add: compress_def managerAfter_def saveSession_def Let_def split_beta split: option.splits)

lemma compress_thrown: "compress enc w cm = Inl (e, c) \<Longrightarrow> w \<noteq> None"
  by (auto simp: compress_def saveSession_def Let_def split_beta split: option.splits if_splits)

text \<open>
  When the original of a compressible message cannot be written, \<open>addMessage\<close> throws
  before it changes anything.
\<close>

lemma addMessage_rejected:
  assumes "session cm = Some s" and "isCompressible (newMessage enc nano now params)"
      and "w_content w = Some e"
  shows "addMessage enc cm nano now w params = Inl (StorageError e, cm)"
  using assms
  by (simp add: addMessage_def saveOriginal_def saveMessageContent_def Let_def
                newMessage_def [symmetric])

text \<open>
  Otherwise the message is pushed, and the manager that \<open>addMessage\<close> leaves, whether
  it returns or a later write throws, holds the messages after the compression.
\<close>

lemma addMessage_props:
  assumes s: "session cm = Some s" and d: "distinct (map key (messages s))"
      and fresh: "ascii ''msg_'' @ nano \<notin> key ` set (messages s)"
      and nr: "\<not> (isCompressible (newMessage enc nano now params) \<and> w_content w \<noteq> None)"
  shows "\<exists>cm' s'. (addMessage enc cm nano now w params = Inr (cm', newMessage enc nano now params)
                   \<or> (\<exists>e. addMessage enc cm nano now w params = Inl (e, cm')
                           \<and> (w_compress w \<noteq> None \<or> w_session w \<noteq> None)))
           \<and> session cm' = Some s'
           \<and> reduced enc (messages s @ [newMessage enc nano now params]) (messages s')
           \<and> totalTokens s' - sumTokens (messages s') = totalTokens s - sumTokens (messages s)
           \<and> sessionId s' = sessionId s
           \<and> sessions (storage cm') = sessions (storage cm)
           \<and> budgetConfig cm' = budgetConfig cm
           \<and> messageFiles (storage cm')
               = (if isCompressible (newMessage enc nano now params)
                  then (messageFiles (storage cm))
                         (messageFilePath (storage cm) (sessionId s) (ascii ''msg_'' @ nano)
                            \<mapsto> storedOf (newMessage enc nano now params))
                  else messageFiles (storage cm))"
proof -
  define message where "message = newMessage enc nano now params"
  have km: "key message = ascii ''msg_'' @ nano" by (simp add: message_def newMessage_def)
  from nr obtain st1 s1 where so: "saveOriginal (w_content w) cm s message = Inr (st1, s1)"
    and m1: "messages s1 = messages s" "totalTokens s1 = totalTokens s" "sessionId s1 = sessionId s"
    and f1: "messageFiles st1 = (if isCompressible message
                  then (messageFiles (storage cm))
                         (messageFilePath (storage cm) (sessionId s) (ascii ''msg_'' @ nano)
                            \<mapsto> storedOf message)
                  else messageFiles (storage cm))"
    and p1: "sessions st1 = sessions (storage cm)"
    by (cases "isCompressible message")
       (auto simp: saveOriginal_def saveMessageContent_def Let_def storedOf_def km
                   message_def [symmetric])
  define cm3 where "cm3 = pushMessage cm st1 s1 message"
  obtain s3 where s3: "session cm3 = Some s3"
    and ms3: "messages s3 = messages s @ [message]"
    and tt3: "totalTokens s3 = totalTokens s + tokens message"
    and id3: "sessionId s3 = sessionId s"
    by (simp add: cm3_def pushMessage_def Let_def m1)
  have st3: "storage cm3 = st1" "budgetConfig cm3 = budgetConfig cm"
    by (simp_all add: cm3_def pushMessage_def Let_def)
  have d3: "distinct (map key (messages s3))"
    using d fresh by (simp add: ms3 km)
  define r4 where "r4 = (if needsCompression cm3 then compress enc (w_compress w) cm3 else Inr cm3)"
  define cm4 where "cm4 = managerAfter r4"
  have "\<exists>s4. session cm4 = Some s4
           \<and> reduced enc (messages s3) (messages s4)
           \<and> totalTokens s4 - sumTokens (messages s4) = totalTokens s3 - sumTokens (messages s3)
           \<and> sessionId s4 = sessionId s3
           \<and> messageFiles (storage cm4) = messageFiles (storage cm3)
           \<and> sessions (storage cm4) = sessions (storage cm3)
           \<and> budgetConfig cm4 = budgetConfig cm3"
  proof (cases "needsCompression cm3")
    case True
    then show ?thesis
      using compress_props[OF s3 d3, of enc "w_compress w"] compress_budgetConfig[of enc "w_compress w" cm3]
      by (simp add: cm4_def r4_def)
  next
    case False
    then show ?thesis using s3 by (simp add: cm4_def r4_def managerAfter_def reduced_refl)
  qed
  then obtain s4 where s4: "session cm4 = Some s4"
    and r4: "reduced enc (messages s3) (messages s4)"
    and t4: "totalTokens s4 - sumTokens (messages s4) = totalTokens s3 - sumTokens (messages s3)"
    and i4: "sessionId s4 = sessionId s3"
    and f4: "messageFiles (storage cm4) = messageFiles (storage cm3)"
    and p4: "sessions (storage cm4) = sessions (storage cm3)"
    and b4: "budgetConfig cm4 = budgetConfig cm3" by blast
  have am: "addMessage enc cm nano now w params =
              (case r4 of
                 Inl (e, c) \<Rightarrow> Inl (e, c)
               | Inr c \<Rightarrow>
                   (case session c of
                      None \<Rightarrow> Inl (NoActiveSession, c)
                    | Some s4 \<Rightarrow>
                        (case saveSession (w_session w) (storage c) s4 of
                           Inl e \<Rightarrow> Inl (e, c)
                         | Inr st \<Rightarrow> Inr (c\<lparr>storage := st\<rparr>, message))))"
    using s so unfolding addMessage_def r4_def cm3_def message_def newMessage_def
    by (simp add: Let_def)
  have rest: "session cm4 = Some s4
           \<and> reduced enc (messages s @ [message]) (messages s4)
           \<and> totalTokens s4 - sumTokens (messages s4) = totalTokens s - sumTokens (messages s)
           \<and> sessionId s4 = sessionId s
           \<and> sessions (storage cm4) = sessions (storage cm)
           \<and> budgetConfig cm4 = budgetConfig cm
           \<and> messageFiles (storage cm4)
               = (if isCompressible message
                  then (messageFiles (storage cm))
                         (messageFilePath (storage cm) (sessionId s) (ascii ''msg_'' @ nano)
                            \<mapsto> storedOf message)
                  else messageFiles (storage cm))"
    using s4 r4 t4 i4 f4 p4 b4 f1 p1 ms3 tt3 id3 st3 by simp
  show ?thesis
  proof (cases r4)
    case (Inl ec)
    obtain e c where ec: "ec = (e, c)" by (cases ec)
    with Inl have c: "c = cm4" by (simp add: cm4_def managerAfter_def)
    from Inl ec have "compress enc (w_compress w) cm3 = Inl (e, c)"
      by (auto simp: r4_def split: if_splits)
    then have "w_compress w \<noteq> None" by (rule compress_thrown)
    with am Inl ec c have "\<exists>e. addMessage enc cm nano now w params = Inl (e, cm4)
                           \<and> (w_compress w \<noteq> None \<or> w_session w \<noteq> None)"
      by simp
    with rest show ?thesis unfolding message_def by blast
  next
    case (Inr c)
    then have c: "c = cm4" by (simp add: cm4_def managerAfter_def)
    show ?thesis
    proof (cases "w_session w")
      case None
      define cm5 where
        "cm5 = cm4\<lparr>storage := (storage cm4)\<lparr>sessionFiles := (sessionFiles (storage cm4))
                    (pathJoin [sessions (storage cm4), sessionId s4, ascii ''session.json''] \<mapsto> s4)\<rparr>\<rparr>"
      from am Inr c s4 None have a5: "addMessage enc cm nano now w params = Inr (cm5, message)"
        by (simp add: saveSession_def cm5_def)
      from rest have "session cm5 = Some s4
           \<and> reduced enc (messages s @ [message]) (messages s4)
           \<and> totalTokens s4 - sumTokens (messages s4) = totalTokens s - sumTokens (messages s)
           \<and> sessionId s4 = sessionId s
           \<and> sessions (storage cm5) = sessions (storage cm)
           \<and> budgetConfig cm5 = budgetConfig cm
           \<and> messageFiles (storage cm5)
               = (if isCompressible message
                  then (messageFiles (storage cm))
                         (messageFilePath (storage cm) (sessionId s) (ascii ''msg_'' @ nano)
                            \<mapsto> storedOf message)
                  else messageFiles (storage cm))"
        by (simp add: cm5_def)
      with a5 show ?thesis unfolding message_def by blast
    next
      case (Some e)
      with am Inr c s4 have "addMessage enc cm nano now w params = Inl (StorageError e, cm4)"
        by (simp add: saveSession_def)
      with Some have "\<exists>e. addMessage enc cm nano now w params = Inl (e, cm4)
                           \<and> (w_compress w \<noteq> None \<or> w_session w \<noteq> None)"
        by simp
      with rest show ?thesis unfolding message_def by blast
    qed
  qed
qed


lemma reduced_keys: "reduced enc ms ms' \<Longrightarrow> \<exists>j. map key ms' = drop j (map key ms)"
  unfolding reduced_def using stepRel_keys by (metis drop_map)

lemma reduced_lastN:
  assumes "reduced enc ms ms'"
  shows "lastN protectedRecentMessages ms' = lastN protectedRecentMessages ms"
proof -
  let ?p = protectedRecentMessages
  from assms obtain ms1 j where r: "stepRel enc ms ms1"
    and d: "drop (length ms - ?p) ms1 = drop (length ms - ?p) ms"
    and j: "j \<le> length ms - ?p" and m: "ms' = drop j ms1"
    unfolding reduced_def by blast
  have l: "length ms1 = length ms" using r by (simp add: stepRel_def)
  have "lastN ?p ms' = drop (j + (length ms - j - ?p)) ms1"
    by (simp add: lastN_def m l add.commute)
  also have "j + (length ms - j - ?p) = length ms - ?p" using j by simp
  finally show ?thesis using d by (simp add: lastN_def)
qed

lemma reduced_short:
  assumes "reduced enc ms ms'" and "length ms \<le> protectedRecentMessages"
  shows "ms' = ms"
proof -
  from assms obtain ms1 j where "drop 0 ms1 = drop 0 ms" "j \<le> 0" "ms' = drop j ms1"
    unfolding reduced_def by auto
  then show ?thesis by simp
qed

subsection \<open>Runs of the public operations\<close>

datatype Op =
    OpInit jstring int SessionWrites jstring jstring
  | OpAdd jstring int MessageWrites AddParams
  | OpCompress rejection
  | OpRecall jstring
  | OpSetSystemPromptTokens int
  | OpSave rejection

text \<open>
  One public operation on the manager, with the values of its environment: the manager
  it leaves, whether it returns or throws. \<open>recall\<close> returns a value and changes
  nothing.
\<close>

fun applyOp :: "encoder \<Rightarrow> ContextManager \<Rightarrow> Op \<Rightarrow> ContextManager" where
  "applyOp enc cm (OpInit sid now w q wd) = managerAfterWith (initSession w cm sid now q wd)"
| "applyOp enc cm (OpAdd nano now w params) = managerAfterWith (addMessage enc cm nano now w params)"
| "applyOp enc cm (OpCompress w) = managerAfter (compress enc w cm)"
| "applyOp enc cm (OpRecall k) = cm"
| "applyOp enc cm (OpSetSystemPromptTokens n) = setSystemPromptTokens cm n"
| "applyOp enc cm (OpSave w) = managerAfter (save w cm)"

definition runOps :: "encoder \<Rightarrow> ContextManager \<Rightarrow> Op list \<Rightarrow> ContextManager" where
  "runOps enc cm ops = foldl (applyOp enc) cm ops"

text \<open>The values nanoid returns for the message keys during a run.\<close>

fun opNanos :: "Op \<Rightarrow> jstring list" where
  "opNanos (OpAdd nano now w params) = [nano]"
| "opNanos _ = []"

definition nanos :: "Op list \<Rightarrow> jstring list" where
  "nanos ops = concat (map opNanos ops)"

definition okState :: "jstring set \<Rightarrow> ContextManager \<Rightarrow> bool" where
  "okState seen cm =
     (case session cm of
        None \<Rightarrow> True
      | Some s \<Rightarrow> totalTokens s = sumTokens (messages s) \<and> distinct (map key (messages s)) \<and>
                  key ` set (messages s) \<subseteq> (\<lambda>n. ascii ''msg_'' @ n) ` seen)"

lemma okState_mono:
  assumes "okState seen cm" and "seen \<subseteq> seen'"
  shows "okState seen' cm"
proof (cases "session cm")
  case None
  then show ?thesis by (simp add: okState_def)
next
  case (Some s)
  from assms(2) have i: "(\<lambda>n. ascii ''msg_'' @ n) ` seen \<subseteq> (\<lambda>n. ascii ''msg_'' @ n) ` seen'"
    by (rule image_mono)
  from assms(1) Some have k: "key ` set (messages s) \<subseteq> (\<lambda>n. ascii ''msg_'' @ n) ` seen"
    by (simp add: okState_def)
  from k i have "key ` set (messages s) \<subseteq> (\<lambda>n. ascii ''msg_'' @ n) ` seen'"
    by (rule order_trans)
  with assms(1) Some show ?thesis by (simp add: okState_def)
qed

lemma okState_session:
  "okState seen cm \<Longrightarrow> session cm' = session cm \<Longrightarrow> okState seen cm'"
  by (simp add: okState_def)

text \<open>What \<open>initSession\<close> leaves: a new, empty session, or the session there was.\<close>

lemma initSession_returned:
  assumes "initSession w cm sid now q wd = Inr (cm', s')"
  shows "session cm' = Some s' \<and> messages s' = [] \<and> totalTokens s' = 0"
  using assms
  by (auto simp: initSession_def createSession_def init_def saveSession_def Let_def
           split: sum.splits option.splits if_splits prod.splits)

lemma initSession_thrown:
  assumes "initSession w cm sid now q wd = Inl (e, cm')"
  shows "session cm' = session cm \<and> messageFiles (storage cm') = messageFiles (storage cm)
         \<and> sessions (storage cm') = sessions (storage cm)"
  using assms
  by (auto simp: initSession_def createSession_def init_def saveSession_def Let_def
           split: sum.splits option.splits if_splits prod.splits)

lemma save_props:
  "session (managerAfter (save w cm)) = session cm
   \<and> messageFiles (storage (managerAfter (save w cm))) = messageFiles (storage cm)
   \<and> sessions (storage (managerAfter (save w cm))) = sessions (storage cm)"
  by (simp add: save_def managerAfter_def saveSession_def split: option.splits)

lemma addMessage_no_session:
  "session cm = None \<Longrightarrow> addMessage enc cm nano now w params = Inl (NoActiveSession, cm)"
  by (simp add: addMessage_def)

lemma compress_no_session: "session cm = None \<Longrightarrow> compress enc w cm = Inr cm"
  by (simp add: compress_def)

lemma okState_step:
  assumes ok: "okState seen cm" and fr: "set (opNanos op) \<inter> seen = {}"
  shows "okState (seen \<union> set (opNanos op)) (applyOp enc cm op)"
proof (cases op)
  case (OpInit sid now w q wd)
  show ?thesis
  proof (cases "initSession w cm sid now q wd")
    case (Inl ec)
    obtain e c where "ec = (e, c)" by (cases ec)
    with Inl initSession_thrown[of w cm sid now q wd e c] ok show ?thesis
      using OpInit by (simp add: managerAfterWith_def okState_def)
  next
    case (Inr cs)
    obtain c s' where "cs = (c, s')" by (cases cs)
    with Inr initSession_returned[of w cm sid now q wd c s'] show ?thesis
      using OpInit by (simp add: managerAfterWith_def okState_def)
  qed
next
  case (OpAdd nano now w params)
  show ?thesis
  proof (cases "session cm")
    case None
    then show ?thesis using OpAdd
      by (simp add: addMessage_no_session managerAfterWith_def okState_def)
  next
    case (Some s)
    with ok have t: "totalTokens s = sumTokens (messages s)" and d: "distinct (map key (messages s))"
      and k: "key ` set (messages s) \<subseteq> (\<lambda>n. ascii ''msg_'' @ n) ` seen"
      by (simp_all add: okState_def)
    from fr OpAdd have "nano \<notin> seen" by simp
    with k have fresh: "ascii ''msg_'' @ nano \<notin> key ` set (messages s)" by auto
    let ?m = "newMessage enc nano now params"
    show ?thesis
    proof (cases "isCompressible ?m \<and> w_content w \<noteq> None")
      case True
      then obtain e where "w_content w = Some e" by auto
      with True addMessage_rejected[OF Some, of enc nano now params w e]
      have "applyOp enc cm op = cm" using OpAdd by (simp add: managerAfterWith_def)
      with ok show ?thesis by (auto intro: okState_mono)
    next
      case False
      from addMessage_props[OF Some d fresh False]
      obtain cm' s' where a: "addMessage enc cm nano now w params = Inr (cm', ?m)
                   \<or> (\<exists>e. addMessage enc cm nano now w params = Inl (e, cm')
                           \<and> (w_compress w \<noteq> None \<or> w_session w \<noteq> None))"
        and s': "session cm' = Some s'"
        and r: "reduced enc (messages s @ [?m]) (messages s')"
        and tt: "totalTokens s' - sumTokens (messages s') = totalTokens s - sumTokens (messages s)"
        by blast
      from a have app: "applyOp enc cm op = cm'" using OpAdd
        by (auto simp: managerAfterWith_def)
      from reduced_keys[OF r] obtain j where
        j: "map key (messages s') = drop j (map key (messages s @ [?m]))" by blast
      have km: "key ?m = ascii ''msg_'' @ nano" by (simp add: newMessage_def)
      have d0: "distinct (map key (messages s @ [?m]))" using d fresh by (simp add: km)
      have d': "distinct (map key (messages s'))" unfolding j using d0 by (rule distinct_drop)
      have "set (map key (messages s')) \<subseteq> set (map key (messages s @ [?m]))"
        unfolding j by (rule set_drop_subset)
      then have k': "key ` set (messages s') \<subseteq> (\<lambda>n. ascii ''msg_'' @ n) ` (seen \<union> {nano})"
        using k km by auto
      from app s' tt t d' k' show ?thesis using OpAdd by (simp add: okState_def)
    qed
  qed
next
  case (OpCompress w)
  show ?thesis
  proof (cases "session cm")
    case None
    then show ?thesis using OpCompress
      by (simp add: compress_no_session managerAfter_def okState_def)
  next
    case (Some s)
    with ok have t: "totalTokens s = sumTokens (messages s)" and d: "distinct (map key (messages s))"
      and k: "key ` set (messages s) \<subseteq> (\<lambda>n. ascii ''msg_'' @ n) ` seen"
      by (simp_all add: okState_def)
    from compress_props[OF Some d, of enc w]
    obtain s' where s': "session (managerAfter (compress enc w cm)) = Some s'"
      and r: "reduced enc (messages s) (messages s')"
      and tt: "totalTokens s' - sumTokens (messages s') = totalTokens s - sumTokens (messages s)"
      by blast
    from reduced_keys[OF r] obtain j where
      j: "map key (messages s') = drop j (map key (messages s))" by blast
    have d': "distinct (map key (messages s'))" unfolding j using d by (rule distinct_drop)
    have "set (map key (messages s')) \<subseteq> set (map key (messages s))"
      unfolding j by (rule set_drop_subset)
    then have k': "key ` set (messages s') \<subseteq> (\<lambda>n. ascii ''msg_'' @ n) ` seen"
      using k by auto
    from s' tt t d' k' show ?thesis using OpCompress by (simp add: okState_def)
  qed
next
  case (OpRecall k)
  then show ?thesis using ok by simp
next
  case (OpSetSystemPromptTokens n)
  then show ?thesis using ok
    by (auto simp: okState_def setSystemPromptTokens_def Let_def split: option.splits)
next
  case (OpSave w)
  then show ?thesis using ok save_props[of w cm]
    by (simp add: okState_def)
qed

lemma okState_run:
  assumes "okState seen cm" and "distinct (nanos ops)" and "set (nanos ops) \<inter> seen = {}"
  shows "okState (seen \<union> set (nanos ops)) (runOps enc cm ops)"
  using assms
proof (induction ops arbitrary: cm seen)
  case Nil
  then show ?case by (simp add: runOps_def nanos_def)
next
  case (Cons op ops)
  from Cons.prems have 1: "set (opNanos op) \<inter> seen = {}"
    and 2: "distinct (nanos ops)"
    and 3: "set (nanos ops) \<inter> (seen \<union> set (opNanos op)) = {}"
    by (auto simp: nanos_def)
  from okState_step[OF Cons.prems(1) 1] have "okState (seen \<union> set (opNanos op)) (applyOp enc cm op)" .
  from Cons.IH[OF this 2 3] show ?case
    by (simp add: runOps_def nanos_def Un_assoc)
qed

text \<open>
  C1. After \<open>initSession\<close> has returned and any sequence of public operations
  (\<open>addMessage\<close>, \<open>compress\<close> with the eviction it runs, \<open>recall\<close>,
  \<open>setSystemPromptTokens\<close>, \<open>save\<close>, a new \<open>initSession\<close>), each of which returns
  or throws on a rejected write, the \<open>totalTokens\<close> of the session is the sum of the
  \<open>tokens\<close> of its messages, provided nanoid never returns the same message key twice
  (keys are unique identifiers in the data model).
\<close>

theorem totalTokens_invariant:
  assumes "distinct (nanos ops)"
      and "initSession w cm sid now q wd = Inr (cm1, s1)"
      and "session (runOps enc cm1 ops) = Some s"
  shows "totalTokens s = sum_list (map tokens (messages s))"
proof -
  have "okState {} cm1"
    using initSession_returned[OF assms(2)] by (simp add: okState_def)
  from okState_run[OF this assms(1), of enc] assms(3) show ?thesis
    by (simp add: okState_def sumTokens_def)
qed


subsection \<open>Originals on disk\<close>

lemma messageFilePath_inj:
  "messageFilePath st sid k = messageFilePath st sid k' \<Longrightarrow> k = k'"
  by (simp add: messageFilePath_def pathJoin_def)

lemma loadMessageContent_path:
  "loadMessageContent st sid k =
     (case messageFiles st (messageFilePath st sid k) of
        None \<Rightarrow> None
      | Some d \<Rightarrow> Some \<lparr>key = st_key d, role = st_role d, content = st_content d,
                        tokens = st_tokens d, compressed = False, originalTokens = None,
                        timestamp = st_timestamp d, metadata = st_metadata d\<rparr>)"
  by (simp add: loadMessageContent_def messageFilePath_def pathJoin_def)

text \<open>
  A message of the session comes from an earlier \<open>addMessage\<close>: it is the message
  built then or its placeholder, and if that message was compressible its original is
  on disk.
\<close>

definition fromAdd :: "encoder \<Rightarrow> ContextManager \<Rightarrow> Session \<Rightarrow> ChatMessage \<Rightarrow> ChatMessage \<Rightarrow> bool" where
  "fromAdd enc cm s orig m =
     ((m = orig \<or> (isCompressible orig \<and> m = compressMessage enc orig)) \<and>
      (isCompressible orig \<longrightarrow>
         messageFiles (storage cm) (messageFilePath (storage cm) (sessionId s) (key orig))
           = Some (storedOf orig)))"

definition added :: "encoder \<Rightarrow> Op list \<Rightarrow> ChatMessage set" where
  "added enc ops =
     {newMessage enc nano now params | nano now w params. OpAdd nano now w params \<in> set ops}"

definition recallState :: "encoder \<Rightarrow> Op list \<Rightarrow> ContextManager \<Rightarrow> bool" where
  "recallState enc ops cm =
     (okState (set (nanos ops)) cm \<and>
      (case session cm of
         None \<Rightarrow> True
       | Some s \<Rightarrow> \<forall>m \<in> set (messages s). \<exists>orig \<in> added enc ops. fromAdd enc cm s orig m))"

lemma added_snoc: "added enc (ops @ [op]) = added enc ops \<union> added enc [op]"
  by (auto simp: added_def)

lemma nanos_snoc: "nanos (ops @ [op]) = nanos ops @ opNanos op"
  by (simp add: nanos_def)

lemma fromAdd_key: "fromAdd enc cm s orig m \<Longrightarrow> key m = key orig"
  by (auto simp: fromAdd_def)

lemma new_not_compressed: "\<not> compressed (newMessage enc nano now params)"
  by (simp add: newMessage_def)

lemma reduced_members:
  assumes "reduced enc ms ms'" and "m' \<in> set ms'"
  shows "\<exists>m \<in> set ms. m' = m \<or> (isCompressible m \<and> m' = compressMessage enc m)"
proof -
  from assms(1) obtain ms1 j where r: "stepRel enc ms ms1" and m: "ms' = drop j ms1"
    unfolding reduced_def by blast
  from assms(2) m have "m' \<in> set ms1" by (auto dest: in_set_dropD)
  then obtain i where i: "i < length ms1" "ms1 ! i = m'" by (auto simp: in_set_conv_nth)
  with r have "i < length ms" "m' = ms ! i \<or> (isCompressible (ms ! i) \<and> m' = compressMessage enc (ms ! i))"
    by (auto simp: stepRel_def)
  then show ?thesis by (metis nth_mem)
qed

lemma fromAdd_reduced:
  assumes f: "fromAdd enc cm s orig m"
      and m': "m' = m \<or> (isCompressible m \<and> m' = compressMessage enc m)"
      and st: "messageFiles (storage cm') (messageFilePath (storage cm') (sessionId s') (key orig))
               = messageFiles (storage cm) (messageFilePath (storage cm) (sessionId s) (key orig))"
  shows "fromAdd enc cm' s' orig m'"
proof -
  from f have 1: "m = orig \<or> (isCompressible orig \<and> m = compressMessage enc orig)"
    and 2: "isCompressible orig \<longrightarrow>
         messageFiles (storage cm) (messageFilePath (storage cm) (sessionId s) (key orig))
           = Some (storedOf orig)"
    by (auto simp: fromAdd_def)
  from 1 m' have "m' = orig \<or> (isCompressible orig \<and> m' = compressMessage enc orig)"
    using isCompressible_not_compressed[of "compressMessage enc orig"] by auto
  with 2 st show ?thesis by (simp add: fromAdd_def)
qed

lemma recallState_kept:
  assumes rs: "recallState enc ops cm" and ok': "okState (set (nanos (ops @ [op]))) cm'"
      and se: "session cm' = session cm"
      and mf: "messageFiles (storage cm') = messageFiles (storage cm)"
      and ss: "sessions (storage cm') = sessions (storage cm)"
  shows "recallState enc (ops @ [op]) cm'"
proof (cases "session cm")
  case None
  with ok' se show ?thesis by (simp add: recallState_def)
next
  case (Some s)
  have sub: "added enc ops \<subseteq> added enc (ops @ [op])" by (auto simp: added_def)
  from rs Some have old: "\<forall>m \<in> set (messages s). \<exists>orig \<in> added enc ops. fromAdd enc cm s orig m"
    by (simp add: recallState_def)
  have "fromAdd enc cm' s orig m = fromAdd enc cm s orig m" for orig m
    using mf ss by (simp add: fromAdd_def messageFilePath_def)
  with old sub have "\<forall>m \<in> set (messages s). \<exists>orig \<in> added enc (ops @ [op]). fromAdd enc cm' s orig m"
    by blast
  with ok' se Some show ?thesis by (simp add: recallState_def)
qed

lemma recallState_step:
  assumes rs: "recallState enc ops cm" and fr: "set (opNanos op) \<inter> set (nanos ops) = {}"
  shows "recallState enc (ops @ [op]) (applyOp enc cm op)"
proof -
  from rs have ok: "okState (set (nanos ops)) cm" by (simp add: recallState_def)
  from okState_step[OF ok fr, of enc]
  have ok': "okState (set (nanos (ops @ [op]))) (applyOp enc cm op)"
    by (simp add: nanos_snoc)
  have sub: "added enc ops \<subseteq> added enc (ops @ [op])" by (auto simp: added_def)
  show ?thesis
  proof (cases op)
    case (OpInit sid now w q wd)
    show ?thesis
    proof (cases "initSession w cm sid now q wd")
      case (Inl ec)
      obtain e c where ec: "ec = (e, c)" by (cases ec)
      with Inl OpInit have app: "applyOp enc cm op = c" by (simp add: managerAfterWith_def)
      from Inl ec initSession_thrown[of w cm sid now q wd e c]
      have "session c = session cm" "messageFiles (storage c) = messageFiles (storage cm)"
        "sessions (storage c) = sessions (storage cm)" by simp_all
      from recallState_kept[OF rs ok'[unfolded app] this] app show ?thesis by simp
    next
      case (Inr cs)
      obtain c s' where cs: "cs = (c, s')" by (cases cs)
      with Inr OpInit have app: "applyOp enc cm op = c" by (simp add: managerAfterWith_def)
      from Inr cs initSession_returned[of w cm sid now q wd c s']
      have "session c = Some s'" "messages s' = []" by simp_all
      with ok' app show ?thesis by (simp add: recallState_def)
    qed
  next
    case (OpAdd nano now w params)
    show ?thesis
    proof (cases "session cm")
      case None
      then have app: "applyOp enc cm op = cm" using OpAdd
        by (simp add: addMessage_no_session managerAfterWith_def)
      from recallState_kept[OF rs ok'[unfolded app]] app show ?thesis by simp
    next
      case (Some s)
      with ok have d: "distinct (map key (messages s))"
        and k: "key ` set (messages s) \<subseteq> (\<lambda>n. ascii ''msg_'' @ n) ` set (nanos ops)"
        by (simp_all add: okState_def)
      from rs Some have old: "\<forall>m \<in> set (messages s). \<exists>orig \<in> added enc ops. fromAdd enc cm s orig m"
        by (simp add: recallState_def)
      from fr OpAdd have "nano \<notin> set (nanos ops)" by simp
      with k have fresh: "ascii ''msg_'' @ nano \<notin> key ` set (messages s)" by auto
      let ?new = "newMessage enc nano now params"
      let ?path = "\<lambda>c k. messageFilePath (storage c) (sessionId s) k"
      show ?thesis
      proof (cases "isCompressible ?new \<and> w_content w \<noteq> None")
        case True
        then obtain e where "w_content w = Some e" by auto
        with True addMessage_rejected[OF Some, of enc nano now params w e]
        have app: "applyOp enc cm op = cm" using OpAdd by (simp add: managerAfterWith_def)
        from recallState_kept[OF rs ok'[unfolded app]] app show ?thesis by simp
      next
        case False
        from addMessage_props[OF Some d fresh False]
        obtain cm' s' where a: "addMessage enc cm nano now w params = Inr (cm', ?new)
                   \<or> (\<exists>e. addMessage enc cm nano now w params = Inl (e, cm')
                           \<and> (w_compress w \<noteq> None \<or> w_session w \<noteq> None))"
          and s': "session cm' = Some s'"
          and r: "reduced enc (messages s @ [?new]) (messages s')"
          and id: "sessionId s' = sessionId s"
          and ss: "sessions (storage cm') = sessions (storage cm)"
          and mf: "messageFiles (storage cm')
                 = (if isCompressible ?new
                    then (messageFiles (storage cm))(?path cm (ascii ''msg_'' @ nano) \<mapsto> storedOf ?new)
                    else messageFiles (storage cm))"
          by blast
        from a have app: "applyOp enc cm op = cm'" using OpAdd
          by (auto simp: managerAfterWith_def)
        have kn: "key ?new = ascii ''msg_'' @ nano" by (simp add: newMessage_def)
        have pe: "?path cm' x = ?path cm x" for x
          using ss by (simp add: messageFilePath_def)
        have newin: "?new \<in> added enc (ops @ [op])" using OpAdd by (auto simp: added_def)
        have fnew: "fromAdd enc cm' s' ?new ?new"
          using mf by (simp add: fromAdd_def id pe kn)
        have "\<exists>orig \<in> added enc (ops @ [op]). fromAdd enc cm' s' orig m'"
          if m': "m' \<in> set (messages s')" for m'
        proof -
          from reduced_members[OF r m'] obtain m where
            m: "m \<in> set (messages s @ [?new])"
            "m' = m \<or> (isCompressible m \<and> m' = compressMessage enc m)" by blast
          show ?thesis
          proof (cases "m = ?new")
            case True
            with m(2) fnew have "fromAdd enc cm' s' ?new m'"
              by (auto simp: fromAdd_def)
            with newin show ?thesis by blast
          next
            case False
            with m(1) have mi: "m \<in> set (messages s)" by simp
            with old obtain orig where o: "orig \<in> added enc ops" "fromAdd enc cm s orig m" by blast
            have "key orig = key m" using o(2) by (simp add: fromAdd_key)
            with mi fresh have "key orig \<noteq> ascii ''msg_'' @ nano" by force
            then have "?path cm (key orig) \<noteq> ?path cm (ascii ''msg_'' @ nano)"
              using messageFilePath_inj by blast
            then have "messageFiles (storage cm') (messageFilePath (storage cm') (sessionId s') (key orig))
                 = messageFiles (storage cm) (messageFilePath (storage cm) (sessionId s) (key orig))"
              using mf by (simp add: id pe)
            from fromAdd_reduced[OF o(2) m(2) this] o(1) sub show ?thesis by blast
          qed
        qed
        with ok' s' app show ?thesis by (simp add: recallState_def)
      qed
    qed
  next
    case (OpCompress w)
    show ?thesis
    proof (cases "session cm")
      case None
      then have app: "applyOp enc cm op = cm" using OpCompress
        by (simp add: compress_no_session managerAfter_def)
      from recallState_kept[OF rs ok'[unfolded app]] app show ?thesis by simp
    next
      case (Some s)
      with ok have d: "distinct (map key (messages s))" by (simp add: okState_def)
      from rs Some have old: "\<forall>m \<in> set (messages s). \<exists>orig \<in> added enc ops. fromAdd enc cm s orig m"
        by (simp add: recallState_def)
      let ?c = "managerAfter (compress enc w cm)"
      from compress_props[OF Some d, of enc w]
      obtain s' where s': "session ?c = Some s'"
        and r: "reduced enc (messages s) (messages s')"
        and id: "sessionId s' = sessionId s"
        and mf: "messageFiles (storage ?c) = messageFiles (storage cm)"
        and ss: "sessions (storage ?c) = sessions (storage cm)"
        by blast
      have "\<exists>orig \<in> added enc (ops @ [op]). fromAdd enc ?c s' orig m'"
        if m': "m' \<in> set (messages s')" for m'
      proof -
        from reduced_members[OF r m'] obtain m where
          m: "m \<in> set (messages s)"
          "m' = m \<or> (isCompressible m \<and> m' = compressMessage enc m)" by blast
        with old obtain orig where o: "orig \<in> added enc ops" "fromAdd enc cm s orig m" by blast
        have "messageFiles (storage ?c) (messageFilePath (storage ?c) (sessionId s') (key orig))
               = messageFiles (storage cm) (messageFilePath (storage cm) (sessionId s) (key orig))"
          using mf ss id by (simp add: messageFilePath_def)
        from fromAdd_reduced[OF o(2) m(2) this] o(1) sub show ?thesis by blast
      qed
      with ok' s' OpCompress show ?thesis by (simp add: recallState_def)
    qed
  next
    case (OpRecall k)
    then have app: "applyOp enc cm op = cm" by simp
    from recallState_kept[OF rs ok'[unfolded app]] app show ?thesis by simp
  next
    case (OpSetSystemPromptTokens n)
    show ?thesis
    proof (cases "session cm")
      case None
      with ok' OpSetSystemPromptTokens show ?thesis
        by (simp add: recallState_def setSystemPromptTokens_def Let_def)
    next
      case (Some s)
      from rs Some have old: "\<forall>m \<in> set (messages s). \<exists>orig \<in> added enc ops. fromAdd enc cm s orig m"
        by (simp add: recallState_def)
      have "fromAdd enc (setSystemPromptTokens cm n) (s\<lparr>budget := b\<rparr>) orig m = fromAdd enc cm s orig m"
        for orig m b
        using Some by (simp add: fromAdd_def setSystemPromptTokens_def Let_def)
      with old sub ok' Some OpSetSystemPromptTokens show ?thesis
        by (simp add: recallState_def setSystemPromptTokens_def Let_def) blast
    qed
  next
    case (OpSave w)
    then have app: "applyOp enc cm op = managerAfter (save w cm)" by simp
    from save_props[of w cm] recallState_kept[OF rs ok'[unfolded app]] app show ?thesis by simp
  qed
qed

lemma recallState_run:
  assumes "recallState enc ops0 cm" and "distinct (nanos (ops0 @ ops))"
  shows "recallState enc (ops0 @ ops) (runOps enc cm ops)"
  using assms
proof (induction ops arbitrary: cm ops0)
  case Nil
  then show ?case by (simp add: runOps_def)
next
  case (Cons op ops)
  from Cons.prems(2) have 1: "set (opNanos op) \<inter> set (nanos ops0) = {}"
    by (auto simp: nanos_def)
  from recallState_step[OF Cons.prems(1) 1]
  have "recallState enc (ops0 @ [op]) (applyOp enc cm op)" .
  from Cons.IH[OF this] Cons.prems(2) show ?case by (simp add: runOps_def)
qed


lemma startsWith_append: "startsWith (p @ r) p"
  by (induction p) auto

lemma createCompressedContent_prefix:
  "startsWith (createCompressedContent m) (ascii ''[COMPRESSED:'')"
  by (simp add: createCompressedContent_def startsWith_append)

lemma find_distinct_key:
  "distinct (map key ms) \<Longrightarrow> m \<in> set ms \<Longrightarrow> List.find (\<lambda>x. key x = key m) ms = Some m"
proof (induction ms)
  case (Cons x xs)
  then show ?case by (cases "x = m") force+
qed simp

lemma initSession_recallState:
  "initSession w cm sid now q wd = Inr (cm1, s1) \<Longrightarrow> recallState enc [] cm1"
  using initSession_returned[of w cm sid now q wd cm1 s1]
  by (simp add: recallState_def okState_def)

text \<open>
  C3. In every state reached from a returned \<open>initSession\<close> by public operations
  with unique keys, whether they return or throw on a rejected write, a compressed
  message of the session has the key it was given by the \<open>addMessage\<close> that created
  it, its content begins with \<open>[COMPRESSED:\<close>, its \<open>originalTokens\<close> is the token
  count of the content passed to that \<open>addMessage\<close> (the \<open>tokens\<close> of the message
  until it was compressed), and \<open>recall\<close> of its key succeeds and returns that
  content verbatim with that token count. A file that was written is taken to stay
  readable.
\<close>

theorem compressed_recall:
  assumes "distinct (nanos ops)"
      and "initSession w0 cm0 sid now0 q wd = Inr (cm1, s1)"
      and "cm = runOps enc cm1 ops"
      and "session cm = Some s" and "m \<in> set (messages s)" and "compressed m"
  shows "\<exists>nano now w params.
           OpAdd nano now w params \<in> set ops \<and>
           key m = ascii ''msg_'' @ nano \<and>
           startsWith (content m) (ascii ''[COMPRESSED:'') \<and>
           originalTokens m = Some (estimateTokens enc (p_content params)) \<and>
           recall cm (key m) =
             \<lparr>success = True, rr_content = p_content params,
              rr_tokens = estimateTokens enc (p_content params),
              rr_source = (case p_metadata params of None \<Rightarrow> None | Some md \<Rightarrow> source md)\<rparr>"
proof -
  have "recallState enc ([] @ ops) (runOps enc cm1 ops)"
    using initSession_recallState[OF assms(2)] assms(1) by (intro recallState_run) simp_all
  with assms(3) have rs: "recallState enc ops cm" by simp
  with assms(4) have d: "distinct (map key (messages s))"
    by (simp add: recallState_def okState_def)
  from rs assms(4,5) obtain orig where o: "orig \<in> added enc ops" "fromAdd enc cm s orig m"
    by (auto simp: recallState_def)
  from o(1) obtain nano now w params where
    op: "OpAdd nano now w params \<in> set ops" and on: "orig = newMessage enc nano now params"
    by (auto simp: added_def)
  have nc: "\<not> compressed orig" by (simp add: on newMessage_def)
  with o(2) assms(6) have mc: "m = compressMessage enc orig" and ic: "isCompressible orig"
    by (auto simp: fromAdd_def)
  with o(2) have onDisk: "messageFiles (storage cm) (messageFilePath (storage cm) (sessionId s) (key orig))
           = Some (storedOf orig)" by (simp add: fromAdd_def)
  have km: "key m = ascii ''msg_'' @ nano" by (simp add: mc on newMessage_def)
  have ko: "key orig = key m" by (simp add: mc)
  have pre: "startsWith (content m) (ascii ''[COMPRESSED:'')"
    by (simp add: mc compressMessage_def Let_def createCompressedContent_prefix)
  have ot: "originalTokens m = Some (estimateTokens enc (p_content params))"
    by (simp add: mc compressMessage_def Let_def on newMessage_def)
  have ne: "key m \<noteq> []" by (simp add: km ascii_def)
  have fd: "List.find (\<lambda>x. key x = key m) (messages s) = Some m"
    using d assms(5) by (rule find_distinct_key)
  have "recall cm (key m) =
             \<lparr>success = True, rr_content = p_content params,
              rr_tokens = estimateTokens enc (p_content params),
              rr_source = (case p_metadata params of None \<Rightarrow> None | Some md \<Rightarrow> source md)\<rparr>"
    using assms(4,6) ne fd onDisk
    by (simp add: recall_def loadMessageContent_path ko[symmetric] storedOf_def on newMessage_def
                  metaSource_def)
  with op km pre ot show ?thesis by blast
qed

text \<open>
  C8. In every state reached from a returned \<open>initSession\<close> by public operations
  with unique keys, whether they return or throw on a rejected write: no compression
  candidate is one of the last \<open>protectedRecentMessages\<close> (4) messages; the eviction
  fallback and \<open>compress\<close> leave the last four messages as they are, and a session of
  four or fewer messages is not changed by \<open>compress\<close> at all; \<open>addMessage\<close>, which
  appends the new message and may compress and evict, returns the new message and leaves
  the last four messages as they are after the append. When a write of \<open>addMessage\<close>
  is rejected it throws, and the messages are then as they were or the last four are as
  they are after the append; when no write is rejected it returns.
\<close>

theorem protected_tail:
  assumes "distinct (nanos ops @ [nano])"
      and "initSession w0 cm0 sid now0 q wd = Inr (cm1, s1)"
      and "cm = runOps enc cm1 ops"
      and "session cm = Some s"
  shows "(\<forall>c \<in> set (getCompressionCandidates cm).
            messageKey c \<notin> key ` set (lastN protectedRecentMessages (messages s)))
       \<and> lastN protectedRecentMessages (messages (discardOldestMessages s t))
           = lastN protectedRecentMessages (messages s)
       \<and> (\<exists>s'. session (managerAfter (compress enc wc cm)) = Some s' \<and>
              lastN protectedRecentMessages (messages s')
                = lastN protectedRecentMessages (messages s) \<and>
              (length (messages s) \<le> protectedRecentMessages \<longrightarrow> messages s' = messages s))
       \<and> (\<forall>cm' m. addMessage enc cm nano now w params = Inr (cm', m) \<longrightarrow>
              m = newMessage enc nano now params \<and>
              (\<exists>s'. session cm' = Some s' \<and>
                 lastN protectedRecentMessages (messages s')
                   = lastN protectedRecentMessages (messages s @ [newMessage enc nano now params])))
       \<and> (\<forall>e cm'. addMessage enc cm nano now w params = Inl (e, cm') \<longrightarrow>
              (\<exists>s'. session cm' = Some s' \<and>
                 (messages s' = messages s \<or>
                  lastN protectedRecentMessages (messages s')
                    = lastN protectedRecentMessages (messages s @ [newMessage enc nano now params]))))
       \<and> (w_content w = None \<and> w_compress w = None \<and> w_session w = None \<longrightarrow>
              (\<exists>cm'. addMessage enc cm nano now w params = Inr (cm', newMessage enc nano now params)))"
proof -
  let ?p = protectedRecentMessages
  let ?new = "newMessage enc nano now params"
  have "okState {} cm1"
    using initSession_returned[OF assms(2)] by (simp add: okState_def)
  from okState_run[OF this, of ops enc] assms
  have ok: "okState (set (nanos ops)) cm" by simp
  with assms(4) have d: "distinct (map key (messages s))"
    and k: "key ` set (messages s) \<subseteq> (\<lambda>n. ascii ''msg_'' @ n) ` set (nanos ops)"
    by (simp_all add: okState_def)
  from assms(1) have "nano \<notin> set (nanos ops)" by simp
  with k have fresh: "ascii ''msg_'' @ nano \<notin> key ` set (messages s)" by auto
  have 1: "\<forall>c \<in> set (getCompressionCandidates cm). messageKey c \<notin> key ` set (lastN ?p (messages s))"
  proof
    fix c assume "c \<in> set (getCompressionCandidates cm)"
    then have "messageKey c \<in> key ` set (take (length (messages s) - ?p) (messages s))"
      using candidates_unprotected[OF assms(4)] by (simp add: set_sortCandidates)
    moreover have "distinct (map key (take (length (messages s) - ?p) (messages s))
                             @ map key (drop (length (messages s) - ?p) (messages s)))"
      using d by (simp add: take_map[symmetric] drop_map[symmetric])
    ultimately show "messageKey c \<notin> key ` set (lastN ?p (messages s))"
      by (auto simp: lastN_def)
  qed
  have 2: "lastN ?p (messages (discardOldestMessages s t)) = lastN ?p (messages s)"
  proof -
    from discardOldestMessages_props[OF d, of t] obtain j where
      j: "j \<le> length (messages s) - ?p" "messages (discardOldestMessages s t) = drop j (messages s)"
      by auto
    have "reduced enc (messages s) (drop j (messages s))"
      unfolding reduced_def using j(1)
      by (intro exI[of _ "messages s"] exI[of _ j]) (simp add: stepRel_refl)
    from reduced_lastN[OF this] j(2) show ?thesis by simp
  qed
  from compress_props[OF assms(4) d, of enc wc] obtain s' where
    s': "session (managerAfter (compress enc wc cm)) = Some s'"
        "reduced enc (messages s) (messages s')" by blast
  then have 3: "\<exists>s'. session (managerAfter (compress enc wc cm)) = Some s' \<and>
              lastN ?p (messages s') = lastN ?p (messages s) \<and>
              (length (messages s) \<le> ?p \<longrightarrow> messages s' = messages s)"
    using reduced_lastN reduced_short by blast
  have 4: "(\<forall>cm' m. addMessage enc cm nano now w params = Inr (cm', m) \<longrightarrow>
              m = ?new \<and>
              (\<exists>s'. session cm' = Some s' \<and> lastN ?p (messages s') = lastN ?p (messages s @ [?new])))
       \<and> (\<forall>e cm'. addMessage enc cm nano now w params = Inl (e, cm') \<longrightarrow>
              (\<exists>s'. session cm' = Some s' \<and>
                 (messages s' = messages s \<or>
                  lastN ?p (messages s') = lastN ?p (messages s @ [?new]))))
       \<and> (w_content w = None \<and> w_compress w = None \<and> w_session w = None \<longrightarrow>
              (\<exists>cm'. addMessage enc cm nano now w params = Inr (cm', ?new)))"
  proof (cases "isCompressible ?new \<and> w_content w \<noteq> None")
    case True
    then obtain e where e: "w_content w = Some e" by auto
    from True addMessage_rejected[OF assms(4) _ e, of enc nano now params]
    have "addMessage enc cm nano now w params = Inl (StorageError e, cm)" by simp
    with assms(4) e show ?thesis by simp
  next
    case False
    from addMessage_props[OF assms(4) d fresh False] obtain cm' s'' where
      a: "addMessage enc cm nano now w params = Inr (cm', ?new)
            \<or> (\<exists>e. addMessage enc cm nano now w params = Inl (e, cm')
                    \<and> (w_compress w \<noteq> None \<or> w_session w \<noteq> None))"
      and se: "session cm' = Some s''"
      and r: "reduced enc (messages s @ [?new]) (messages s'')" by blast
    from reduced_lastN[OF r] have l: "lastN ?p (messages s'') = lastN ?p (messages s @ [?new])" .
    from a show ?thesis
    proof
      assume "addMessage enc cm nano now w params = Inr (cm', ?new)"
      with se l show ?thesis by simp
    next
      assume "\<exists>e. addMessage enc cm nano now w params = Inl (e, cm')
                    \<and> (w_compress w \<noteq> None \<or> w_session w \<noteq> None)"
      with se l show ?thesis by auto
    qed
  qed
  from 1 2 3 4 show ?thesis by blast
qed

subsection \<open>A run with a compression\<close>

text \<open>
  A window of 500 tokens and a tokenizer that counts one token per code unit: a search
  result of 300 tokens, then four short messages. The fifth message brings the usage to
  400 of 500, the search result is the only unprotected message, and its placeholder
  frees enough.
\<close>

definition unitEncoder :: encoder where
  "unitEncoder s = Some (length s)"

definition smallManager :: ContextManager where
  "smallManager =
     \<lparr>storage = \<lparr>base = ascii ''.chibi'', sessions = ascii ''.chibi/sessions'',
                  initialized = False, messageFiles = Map.empty, sessionFiles = Map.empty\<rparr>,
      session = None,
      budgetConfig = \<lparr>contextWindow = 500, reservedForSynthesis = 0,
                      reservedForRecalls = 0, reservedForNextSteps = 0\<rparr>,
      systemPromptTokens = 0\<rparr>"

definition searchResult :: AddParams where
  "searchResult =
     \<lparr>p_role = User, p_content = replicate 300 97,
      p_metadata = Some \<lparr>toolName = Some (ascii ''ripgrep''), source = None,
                         compressible = Some True\<rparr>\<rparr>"

definition shortNote :: AddParams where
  "shortNote = \<lparr>p_role = Assistant, p_content = replicate 25 98, p_metadata = None\<rparr>"

text \<open>No file-system call is rejected.\<close>

definition allCreated :: SessionWrites where
  "allCreated = \<lparr>w_init = None, w_dirs = None, w_sessionFile = None\<rparr>"

definition allWritten :: MessageWrites where
  "allWritten = \<lparr>w_content = None, w_compress = None, w_session = None\<rparr>"

definition fourAdds :: "Op list" where
  "fourAdds = [OpAdd (ascii ''a'') 1 allWritten searchResult, OpAdd (ascii ''b'') 2 allWritten shortNote,
               OpAdd (ascii ''c'') 3 allWritten shortNote, OpAdd (ascii ''d'') 4 allWritten shortNote]"

definition fifthAdd :: Op where
  "fifthAdd = OpAdd (ascii ''e'') 5 allWritten shortNote"

definition started :: ContextManager where
  "started = managerAfterWith
               (initSession allCreated smallManager (ascii ''S'') 0 (ascii ''q'') (ascii ''.''))"

lemmas manager_eval =
  runOps_def initSession_def createSession_def init_def saveSession_def addMessage_def
  saveOriginal_def pushMessage_def managerAfter_def managerAfterWith_def allCreated_def allWritten_def
  estimateTokens_def isCompressible_def minTokensToCompress_def metaCompressible_def
  metaToolName_def metaSource_def truthy_def saveMessageContent_def messageFilePath_def pathJoin_def
  calculateBudget_def needsCompression_def triggerRatio_def targetRatio_def compress_def
  calculateTokensToFree_def getCompressionCandidates_def unprotected_def
  protectedRecentMessages_def candidateOf_def sortCandidates_def compareCandidates_def
  priorityOrder_def compressMessage_def createCompressedContent_def recallHint_def
  discardOldestMessages_def showInt_def slice_def Let_def split_beta

lemma started_returned:
  "\<exists>s1. initSession allCreated smallManager (ascii ''S'') 0 (ascii ''q'') (ascii ''.'')
          = Inr (started, s1)"
  by (simp add: started_def initSession_def createSession_def init_def saveSession_def
                managerAfterWith_def allCreated_def smallManager_def Let_def)

lemma fiveAdds_state:
  "\<exists>s. session (runOps unitEncoder started (fourAdds @ [fifthAdd])) = Some s \<and>
       map key (messages s) = [ascii ''msg_a'', ascii ''msg_b'', ascii ''msg_c'', ascii ''msg_d'',
                               ascii ''msg_e''] \<and>
       map compressed (messages s) = [True, False, False, False, False] \<and>
       map tokens (messages s) = [67, 25, 25, 25, 25] \<and>
       totalTokens s = 167"
  by (simp add: manager_eval started_def unitEncoder_def smallManager_def fourAdds_def fifthAdd_def
                searchResult_def shortNote_def ascii_def)

lemma nanos_fiveAdds:
  "nanos (fourAdds @ [fifthAdd]) = [ascii ''a'', ascii ''b'', ascii ''c'', ascii ''d'', ascii ''e'']"
  by (simp add: nanos_def fourAdds_def fifthAdd_def)

theorem totalTokens_invariant_witness:
  "distinct (nanos (fourAdds @ [fifthAdd])) \<and>
   (\<exists>s1 s. initSession allCreated smallManager (ascii ''S'') 0 (ascii ''q'') (ascii ''.'')
              = Inr (started, s1) \<and>
        session (runOps unitEncoder started (fourAdds @ [fifthAdd])) = Some s \<and>
        map compressed (messages s) = [True, False, False, False, False] \<and>
        totalTokens s = sum_list (map tokens (messages s)) \<and> totalTokens s = 167)"
proof -
  have d: "distinct (nanos (fourAdds @ [fifthAdd]))"
    unfolding nanos_fiveAdds by (simp add: ascii_def)
  from started_returned obtain s1 where
    i: "initSession allCreated smallManager (ascii ''S'') 0 (ascii ''q'') (ascii ''.'')
          = Inr (started, s1)" by blast
  from fiveAdds_state obtain s where
    s: "session (runOps unitEncoder started (fourAdds @ [fifthAdd])) = Some s"
    and c: "map compressed (messages s) = [True, False, False, False, False]"
    and t: "totalTokens s = 167"
    by auto
  from totalTokens_invariant [OF d i s] have "totalTokens s = sum_list (map tokens (messages s))" .
  with i s c t have "\<exists>s1 s. initSession allCreated smallManager (ascii ''S'') 0 (ascii ''q'') (ascii ''.'')
              = Inr (started, s1) \<and>
        session (runOps unitEncoder started (fourAdds @ [fifthAdd])) = Some s \<and>
        map compressed (messages s) = [True, False, False, False, False] \<and>
        totalTokens s = sum_list (map tokens (messages s)) \<and> totalTokens s = 167"
    by (intro exI conjI)
  with d show ?thesis by (rule conjI)
qed


lemma compress_keeps_session:
  "session cm \<noteq> None \<Longrightarrow> session (managerAfter (compress enc w cm)) \<noteq> None"
  by (auto simp: compress_def managerAfter_def saveSession_def Let_def split_beta
           split: option.splits)

lemma addMessage_keeps_session:
  assumes "session cm \<noteq> None"
  shows "session (managerAfterWith (addMessage enc cm nano now w params)) \<noteq> None"
proof -
  from assms obtain s where s: "session cm = Some s" by auto
  let ?m = "newMessage enc nano now params"
  show ?thesis
  proof (cases "saveOriginal (w_content w) cm s ?m")
    case (Inl e)
    with s assms show ?thesis
      by (simp add: addMessage_def managerAfterWith_def Let_def newMessage_def)
  next
    case (Inr p)
    obtain st1 s1 where p: "p = (st1, s1)" by (cases p)
    define cm3 where "cm3 = pushMessage cm st1 s1 ?m"
    define r4 where "r4 = (if needsCompression cm3 then compress enc (w_compress w) cm3 else Inr cm3)"
    have "session cm3 \<noteq> None" by (simp add: cm3_def pushMessage_def Let_def)
    then have k: "session (managerAfter r4) \<noteq> None"
      using compress_keeps_session[of cm3 enc "w_compress w"] by (simp add: r4_def managerAfter_def)
    have "addMessage enc cm nano now w params =
              (case r4 of
                 Inl (e, c) \<Rightarrow> Inl (e, c)
               | Inr c \<Rightarrow>
                   (case session c of
                      None \<Rightarrow> Inl (NoActiveSession, c)
                    | Some s4 \<Rightarrow>
                        (case saveSession (w_session w) (storage c) s4 of
                           Inl e \<Rightarrow> Inl (e, c)
                         | Inr st \<Rightarrow> Inr (c\<lparr>storage := st\<rparr>, ?m))))"
      using s Inr p unfolding addMessage_def r4_def cm3_def newMessage_def
      by (simp add: Let_def)
    with k show ?thesis
      by (cases r4) (auto simp: managerAfterWith_def managerAfter_def saveSession_def
                          split: option.splits prod.splits)
  qed
qed

lemma applyOp_keeps_session:
  "session cm \<noteq> None \<Longrightarrow> session (applyOp enc cm op) \<noteq> None"
proof (cases op)
  case (OpInit sid now w q wd)
  assume "session cm \<noteq> None"
  then show ?thesis using OpInit
    by (auto simp: initSession_def managerAfterWith_def Let_def
             split: sum.splits prod.splits)
next
  case (OpAdd nano now w params)
  assume "session cm \<noteq> None"
  then show ?thesis using OpAdd by (simp add: addMessage_keeps_session)
next
  case (OpCompress w)
  assume "session cm \<noteq> None"
  then show ?thesis using OpCompress by (simp add: compress_keeps_session)
next
  case (OpSave w)
  assume "session cm \<noteq> None"
  then show ?thesis using OpSave save_props[of w cm] by simp
qed (auto simp: setSystemPromptTokens_def Let_def)

lemma runOps_keeps_session:
  "session cm \<noteq> None \<Longrightarrow> session (runOps enc cm ops) \<noteq> None"
  unfolding runOps_def
proof (induction ops arbitrary: cm)
  case Nil
  then show ?case by simp
next
  case (Cons op ops)
  from Cons.prems have "session (applyOp enc cm op) \<noteq> None" by (rule applyOp_keeps_session)
  from Cons.IH[OF this] show ?case by simp
qed

lemma started_session: "session started \<noteq> None"
  by (simp add: started_def initSession_def createSession_def init_def saveSession_def
                managerAfterWith_def allCreated_def smallManager_def Let_def)

theorem compressed_recall_witness:
  "distinct (nanos (fourAdds @ [fifthAdd])) \<and>
   (\<exists>s1 s m. initSession allCreated smallManager (ascii ''S'') 0 (ascii ''q'') (ascii ''.'')
                = Inr (started, s1) \<and>
          session (runOps unitEncoder started (fourAdds @ [fifthAdd])) = Some s \<and>
          m \<in> set (messages s) \<and> compressed m \<and> key m = ascii ''msg_a'' \<and>
          startsWith (content m) (ascii ''[COMPRESSED:'') \<and>
          originalTokens m = Some 300 \<and>
          recall (runOps unitEncoder started (fourAdds @ [fifthAdd])) (ascii ''msg_a'')
            = \<lparr>success = True, rr_content = replicate 300 97, rr_tokens = 300, rr_source = None\<rparr>)"
proof -
  let ?ops = "fourAdds @ [fifthAdd]"
  let ?cm = "runOps unitEncoder started ?ops"
  have d: "distinct (nanos ?ops)"
    unfolding nanos_fiveAdds by (simp add: ascii_def)
  from started_returned obtain s1 where
    i: "initSession allCreated smallManager (ascii ''S'') 0 (ascii ''q'') (ascii ''.'')
          = Inr (started, s1)" by blast
  from fiveAdds_state obtain s where
    s: "session ?cm = Some s"
    and k: "map key (messages s) = [ascii ''msg_a'', ascii ''msg_b'', ascii ''msg_c'', ascii ''msg_d'',
                               ascii ''msg_e'']"
    and c: "map compressed (messages s) = [True, False, False, False, False]"
    by auto
  from k c obtain m ms where ms: "messages s = m # ms" and km: "key m = ascii ''msg_a''"
    and cm: "compressed m" by (cases "messages s") auto
  then have mi: "m \<in> set (messages s)" by simp
  from compressed_recall [OF d i refl s mi cm] obtain nano now w params where
    op: "OpAdd nano now w params \<in> set ?ops" and kn: "key m = ascii ''msg_'' @ nano"
    and pre: "startsWith (content m) (ascii ''[COMPRESSED:'')"
    and ot: "originalTokens m = Some (estimateTokens unitEncoder (p_content params))"
    and rc: "recall ?cm (key m) =
             \<lparr>success = True, rr_content = p_content params,
              rr_tokens = estimateTokens unitEncoder (p_content params),
              rr_source = (case p_metadata params of None \<Rightarrow> None | Some md \<Rightarrow> source md)\<rparr>"
    by blast
  from kn km have "nano = ascii ''a''" by (simp add: ascii_def)
  with op have "params = searchResult" by (auto simp: fourAdds_def fifthAdd_def ascii_def)
  with ot rc km have "originalTokens m = Some 300"
    "recall ?cm (ascii ''msg_a'')
       = \<lparr>success = True, rr_content = replicate 300 97, rr_tokens = 300, rr_source = None\<rparr>"
    by (simp_all add: searchResult_def estimateTokens_def unitEncoder_def)
  with i s mi cm km pre have "\<exists>s1 s m.
          initSession allCreated smallManager (ascii ''S'') 0 (ascii ''q'') (ascii ''.'')
                = Inr (started, s1) \<and>
          session ?cm = Some s \<and>
          m \<in> set (messages s) \<and> compressed m \<and> key m = ascii ''msg_a'' \<and>
          startsWith (content m) (ascii ''[COMPRESSED:'') \<and>
          originalTokens m = Some 300 \<and>
          recall ?cm (ascii ''msg_a'')
            = \<lparr>success = True, rr_content = replicate 300 97, rr_tokens = 300, rr_source = None\<rparr>"
    by (intro exI conjI)
  with d show ?thesis by (rule conjI)
qed

text \<open>
  The fifth message again, with the write of the session at the end of \<open>addMessage\<close>
  rejected: the disk is full.
\<close>

definition diskFull :: MessageWrites where
  "diskFull = \<lparr>w_content = None, w_compress = None, w_session = Some (ascii ''ENOSPC'')\<rparr>"

lemma addMessage_returned_written:
  "addMessage enc cm nano now w params = Inr (cm', m) \<Longrightarrow> w_session w = None"
  by (auto simp: addMessage_def saveSession_def Let_def
           split: option.splits sum.splits prod.splits if_splits)

theorem protected_tail_witness:
  "distinct (nanos fourAdds @ [ascii ''e'']) \<and>
   (\<exists>s1 s s' e cm' s''.
      initSession allCreated smallManager (ascii ''S'') 0 (ascii ''q'') (ascii ''.'')
        = Inr (started, s1) \<and>
      session (runOps unitEncoder started fourAdds) = Some s \<and>
      session (runOps unitEncoder started (fourAdds @ [fifthAdd])) = Some s' \<and>
      map compressed (messages s') = [True, False, False, False, False] \<and>
      lastN protectedRecentMessages (messages s')
        = lastN protectedRecentMessages (messages s @ [newMessage unitEncoder (ascii ''e'') 5 shortNote]) \<and>
      addMessage unitEncoder (runOps unitEncoder started fourAdds) (ascii ''e'') 5 diskFull shortNote
        = Inl (e, cm') \<and>
      session cm' = Some s'' \<and>
      (messages s'' = messages s \<or>
       lastN protectedRecentMessages (messages s'')
         = lastN protectedRecentMessages (messages s @ [newMessage unitEncoder (ascii ''e'') 5 shortNote])))"
proof -
  let ?cm = "runOps unitEncoder started fourAdds"
  let ?new = "newMessage unitEncoder (ascii ''e'') 5 shortNote"
  have d: "distinct (nanos fourAdds @ [ascii ''e''])"
    by (simp add: nanos_def fourAdds_def ascii_def)
  from started_returned obtain s1 where
    i: "initSession allCreated smallManager (ascii ''S'') 0 (ascii ''q'') (ascii ''.'')
          = Inr (started, s1)" by blast
  have "session ?cm \<noteq> None"
    using started_session runOps_keeps_session by blast
  then obtain s where s: "session ?cm = Some s" by blast
  note written = protected_tail [OF d i refl s, where t = 0 and wc = None and now = 5
                                   and w = allWritten and params = shortNote]
  note full = protected_tail [OF d i refl s, where t = 0 and wc = None and now = 5
                                and w = diskFull and params = shortNote]
  from written obtain cm5 where
    a: "addMessage unitEncoder ?cm (ascii ''e'') 5 allWritten shortNote = Inr (cm5, ?new)"
    by (auto simp: allWritten_def)
  with written obtain s' where s': "session cm5 = Some s'"
    and l: "lastN protectedRecentMessages (messages s')
            = lastN protectedRecentMessages (messages s @ [?new])"
    by blast
  have r: "runOps unitEncoder started (fourAdds @ [fifthAdd]) = cm5"
    using a by (simp add: runOps_def fifthAdd_def managerAfterWith_def)
  have s5: "session (runOps unitEncoder started (fourAdds @ [fifthAdd])) = Some s'"
    using r s' by simp
  with fiveAdds_state
  have c: "map compressed (messages s') = [True, False, False, False, False]"
    by auto
  have "\<not> (\<exists>cm' m. addMessage unitEncoder ?cm (ascii ''e'') 5 diskFull shortNote = Inr (cm', m))"
    using addMessage_returned_written[of unitEncoder ?cm "ascii ''e''" 5 diskFull shortNote]
    by (auto simp: diskFull_def)
  then obtain e cm' where
    t: "addMessage unitEncoder ?cm (ascii ''e'') 5 diskFull shortNote = Inl (e, cm')"
    by (cases "addMessage unitEncoder ?cm (ascii ''e'') 5 diskFull shortNote") auto
  with full obtain s'' where s'': "session cm' = Some s''"
    and l'': "messages s'' = messages s \<or>
       lastN protectedRecentMessages (messages s'')
         = lastN protectedRecentMessages (messages s @ [?new])"
    by blast
  from i s s5 c l t s'' l'' have "\<exists>s1 s s' e cm' s''.
      initSession allCreated smallManager (ascii ''S'') 0 (ascii ''q'') (ascii ''.'')
        = Inr (started, s1) \<and>
      session ?cm = Some s \<and>
      session (runOps unitEncoder started (fourAdds @ [fifthAdd])) = Some s' \<and>
      map compressed (messages s') = [True, False, False, False, False] \<and>
      lastN protectedRecentMessages (messages s') = lastN protectedRecentMessages (messages s @ [?new]) \<and>
      addMessage unitEncoder ?cm (ascii ''e'') 5 diskFull shortNote = Inl (e, cm') \<and>
      session cm' = Some s'' \<and>
      (messages s'' = messages s \<or>
       lastN protectedRecentMessages (messages s'')
         = lastN protectedRecentMessages (messages s @ [?new]))"
    by (intro exI conjI)
  with d show ?thesis by (rule conjI)
qed

section \<open>The investigation loop and the orchestrator\<close>

subsection \<open>State of the investigator\<close>

datatype Status = Running | Completed | Failed | StuckStatus

record 'a AgentState =
  iteration :: int
  stateMaxIterations :: int
  decisions :: "'a AgentDecision list"
  thinking :: "jstring list"
  status :: Status
  stuckCount :: int
  lastToolResults :: "(jstring \<times> jstring) list"

record 'a IterationResult =
  it_decision :: "'a AgentDecision"
  it_thinking :: "jstring option"
  it_toolResult :: "(jstring \<times> jstring \<times> bool) option"
  it_tokensUsed :: int

text \<open>\<open>aborted\<close> is \<open>abortController.signal.aborted\<close>; \<open>abort()\<close> sets it.\<close>

record 'a InvestigatorAgent =
  state :: "'a AgentState"
  loopConfig :: AgentLoopConfig
  aborted :: bool
  keyFiles :: "jstring list"
  contextManager :: ContextManager

record 'a InvestigationResult =
  ir_success :: bool
  ir_findings :: jstring
  ir_keyFiles :: "jstring list"
  ir_messages :: "SynthesisMessage list"
  ir_iterations :: int
  ir_totalTokensUsed :: int
  ir_decisions :: "'a AgentDecision list"
  ir_error :: "jstring option"

definition newInvestigatorAgent :: "ContextManager \<Rightarrow> AgentLoopConfig \<Rightarrow> 'a InvestigatorAgent" where
  "newInvestigatorAgent cm cfg =
     \<lparr>state = \<lparr>iteration = 0, stateMaxIterations = maxIterations cfg, decisions = [],
                thinking = [], status = Running, stuckCount = 0, lastToolResults = []\<rparr>,
      loopConfig = cfg, aborted = False, keyFiles = [], contextManager = cm\<rparr>"

definition abort :: "'a InvestigatorAgent \<Rightarrow> 'a InvestigatorAgent" where
  "abort agent = agent\<lparr>aborted := True\<rparr>"

subsection \<open>The environment\<close>

text \<open>
  \<open>runIteration\<close> awaits the language model and the tools, which are outside the
  repository. What a call does is given by the environment: it returns an iteration
  result or throws an error with a message (after having pushed a decision or not), and
  it leaves \<open>thinking\<close>, \<open>lastToolResults\<close>, \<open>keyFiles\<close> and the context manager in a
  new state. While it awaits, \<open>abort()\<close> may be invoked. The environment also gives
  the values of \<open>nanoid(8)\<close> and \<open>Date.now()\<close> and the outcomes of the writes for a
  message that \<open>investigate\<close> adds itself, the tokenizer, \<open>JSON.stringify\<close>, what
  the synthesizer returns or throws, and whether \<open>abort()\<close> of the orchestrator is
  invoked while the investigation runs.
\<close>

datatype 'a Outcome =
    Returned "'a IterationResult"
  | Threw jstring "'a AgentDecision option"

record 'a IterationEnd =
  outcome :: "'a Outcome"
  ie_thinking :: "jstring list"
  ie_lastToolResults :: "(jstring \<times> jstring) list"
  ie_keyFiles :: "jstring list"
  ie_contextManager :: ContextManager
  ie_abort :: bool

record SynthesisResult =
  sr_success :: bool
  sr_report :: jstring
  sr_tokensUsed :: int
  sr_error :: "jstring option"

record 'a Env =
  tokenizer :: encoder
  jsonStringify :: "'a \<Rightarrow> jstring"
  nanoid :: "ContextManager \<Rightarrow> jstring"
  dateNow :: "ContextManager \<Rightarrow> int"
  writes :: "ContextManager \<Rightarrow> MessageWrites"
  iterate :: "'a InvestigatorAgent \<Rightarrow> 'a IterationEnd"

record 'a OrchestratorEnv =
  agentEnv :: "'a Env"
  synthesize :: "jstring \<Rightarrow> SynthesisMessage list \<Rightarrow> jstring list \<Rightarrow> jstring + SynthesisResult"
  abortWhileInvestigating :: bool

definition runIteration :: "'a Env \<Rightarrow> 'a InvestigatorAgent \<Rightarrow> 'a Outcome \<times> 'a InvestigatorAgent" where
  "runIteration env agent =
     (let e = iterate env agent;
          pushed = (case outcome e of
                      Returned r \<Rightarrow> [it_decision r]
                    | Threw msg d \<Rightarrow> (case d of None \<Rightarrow> [] | Some x \<Rightarrow> [x]))
      in (outcome e,
          agent\<lparr>state := (state agent)\<lparr>decisions := decisions (state agent) @ pushed,
                                         thinking := ie_thinking e,
                                         lastToolResults := ie_lastToolResults e\<rparr>,
                keyFiles := ie_keyFiles e,
                contextManager := ie_contextManager e,
                aborted := (aborted agent \<or> ie_abort e)\<rparr>))"

subsection \<open>Findings\<close>

text \<open>\<open>s.split('\n')\<close>, for any separating code unit.\<close>

fun splitOn :: "nat \<Rightarrow> jstring \<Rightarrow> jstring list" where
  "splitOn c [] = [[]]"
| "splitOn c (x # xs) =
     (if x = c then [] # splitOn c xs
      else (case splitOn c xs of [] \<Rightarrow> [[x]] | p # ps \<Rightarrow> (x # p) # ps))"

definition extractFindings :: "jstring \<Rightarrow> jstring" where
  "extractFindings content' =
     (case exec (lit completeMarker) content' of
        Some (markerIndex, markerEnd, _) \<Rightarrow> trim (drop markerEnd content')
      | None \<Rightarrow> content')"

definition isBullet :: "jstring \<Rightarrow> bool" where
  \<comment> \<open>A line that starts with \<open>-\<close>, with \<open>*\<close>, or with digits and a dot (\<open>/^\d+\./\<close>).\<close>
  "isBullet line =
     (startsWith line (ascii ''-'') \<or> startsWith line (ascii ''*'') \<or>
      run (Seq (plus isDigit) (chr 46)) line 0 [] \<noteq> [])"

definition gatherPartialFindings :: "ContextManager \<Rightarrow> jstring" where
  "gatherPartialFindings cm =
     (let messages' = getMessages cm;
          findings = concat (map (\<lambda>message.
                        if role message = Assistant \<and> content message \<noteq> []
                        then filter isBullet (splitOn 10 (content message)) else []) messages')
      in if length findings > 0 then join [10] findings
         else (case List.find (\<lambda>m. role m = Assistant) (rev messages') of
                 Some m \<Rightarrow> content m
               | None \<Rightarrow> []))"

subsection \<open>investigate\<close>

text \<open>
  \<open>xs.slice(0, end)\<close> for an integer \<open>end\<close>; a negative end counts from the end of
  the array.
\<close>

definition sliceTo :: "'b list \<Rightarrow> int \<Rightarrow> 'b list" where
  "sliceTo xs e =
     (if e < 0 then take (nat (max (int (length xs) + e) 0)) xs
      else take (nat (min e (int (length xs)))) xs)"

definition stuckWarning :: "('a \<Rightarrow> jstring) \<Rightarrow> int \<Rightarrow> 'a AgentDecision \<Rightarrow> jstring" where
  \<comment> \<open>The Chinese warning added when the agent is stuck: the threshold and the repeated action.\<close>
  "stuckWarning str threshold lastDecision =
     (let stuckInfo = (case lastDecision of
                         ToolCallDecision n a \<Rightarrow>
                           [24037, 20855] @ ascii '' '' @ [34] @ n @ [34, 65292, 21442, 25968]
                           @ ascii '': '' @ str a
                       | _ \<Rightarrow> [30456, 21516, 30340, 25805, 20316])
      in [9888, 65039] @ ascii '' **'' @ [26816, 27979, 21040, 24490, 29615] @ ascii ''**: ''
         @ [20320, 24050, 32463, 36830, 32493] @ ascii '' '' @ showInt threshold @ ascii '' ''
         @ [27425, 25191, 34892, 30456, 21516, 30340, 25805, 20316, 65288] @ stuckInfo
         @ [65289, 12290, 10, 10, 36825, 36890, 24120, 24847, 21619, 30528, 65306, 10] @ ascii ''1. ''
         @ [35813, 25991, 20214, 21487, 33021, 19981, 23384, 22312, 25110, 36335, 24452, 38169, 35823, 10]
         @ ascii ''2. ''
         @ [20320, 21487, 33021, 38656, 35201, 23581, 35797, 19981, 21516, 30340, 25628, 32034, 31574,
            30053, 10]
         @ ascii ''3. ''
         @ [20320, 21487, 33021, 38656, 35201, 25442, 19968, 20010, 26041, 21521, 32487, 32493, 35843,
            26597, 10, 10, 35831, 35843, 25972, 20320, 30340, 31574, 30053, 65292, 23581, 35797, 19981,
            21516, 30340, 26041, 27861, 12290])"

text \<open>The three ways \<open>investigate\<close> returns: done, out of the loop, and from \<open>catch\<close>.\<close>

definition doneResult ::
  "'a InvestigatorAgent \<Rightarrow> int \<Rightarrow> jstring \<Rightarrow> 'a InvestigationResult \<times> 'a InvestigatorAgent" where
  "doneResult agent totalTokensUsed result =
     (\<lparr>ir_success = True, ir_findings = extractFindings result, ir_keyFiles = keyFiles agent,
       ir_messages = getMessagesForSynthesis (contextManager agent),
       ir_iterations = iteration (state agent), ir_totalTokensUsed = totalTokensUsed,
       ir_decisions = decisions (state agent), ir_error = None\<rparr>,
      agent\<lparr>state := (state agent)\<lparr>status := Completed\<rparr>\<rparr>)"

definition partialResult ::
  "'a InvestigatorAgent \<Rightarrow> int \<Rightarrow> 'a InvestigationResult \<times> 'a InvestigatorAgent" where
  "partialResult agent totalTokensUsed =
     (\<lparr>ir_success = True, ir_findings = gatherPartialFindings (contextManager agent),
       ir_keyFiles = keyFiles agent,
       ir_messages = getMessagesForSynthesis (contextManager agent),
       ir_iterations = iteration (state agent), ir_totalTokensUsed = totalTokensUsed,
       ir_decisions = decisions (state agent), ir_error = None\<rparr>,
      agent\<lparr>state := (state agent)\<lparr>status := Completed\<rparr>\<rparr>)"

definition caught ::
  "'a InvestigatorAgent \<Rightarrow> int \<Rightarrow> jstring \<Rightarrow> 'a InvestigationResult \<times> 'a InvestigatorAgent" where
  "caught agent totalTokensUsed message =
     (\<lparr>ir_success = False, ir_findings = [], ir_keyFiles = keyFiles agent, ir_messages = [],
       ir_iterations = iteration (state agent), ir_totalTokensUsed = totalTokensUsed,
       ir_decisions = decisions (state agent), ir_error = Some message\<rparr>,
      agent)"

definition typeErrorMessage :: jstring where
  "typeErrorMessage = ascii ''Cannot read properties of undefined (reading '' @ [39] @ ascii ''type''
                      @ [39] @ ascii '')''"

text \<open>\<open>decision.type === 'done'\<close>, with \<open>decision.result\<close>.\<close>

definition doneText :: "'a AgentDecision \<Rightarrow> jstring option" where
  "doneText d = (case d of Done r \<Rightarrow> Some r | _ \<Rightarrow> None)"

lemma runIteration_keeps:
  "iteration (state (snd (runIteration env agent))) = iteration (state agent)"
  "loopConfig (snd (runIteration env agent)) = loopConfig agent"
  by (simp_all add: runIteration_def Let_def)

text \<open>
  The \<open>while\<close> loop inside \<open>try\<close>, from a loop head; \<open>totalTokensUsed\<close> is the local
  variable. Each turn raises \<open>iteration\<close>, which bounds the loop.
\<close>

function investigateLoop ::
  "'a Env \<Rightarrow> 'a InvestigatorAgent \<Rightarrow> int \<Rightarrow> 'a InvestigationResult \<times> 'a InvestigatorAgent" where
  "investigateLoop env agent totalTokensUsed =
     (if iteration (state agent) < maxIterations (loopConfig agent)
      then
        if aborted agent then partialResult agent totalTokensUsed
        else
          let agent1 = agent\<lparr>state := (state agent)\<lparr>iteration := iteration (state agent) + 1\<rparr>\<rparr>;
              out = fst (runIteration env agent1);
              agent2 = snd (runIteration env agent1)
          in case out of
               Threw message d \<Rightarrow> caught agent2 totalTokensUsed message
             | Returned result \<Rightarrow>
                 (case doneText (it_decision result) of
                    Some r \<Rightarrow> doneResult agent2 (totalTokensUsed + it_tokensUsed result) r
                  | None \<Rightarrow>
                      (case isStuck (jsonStringify env) (stuckThreshold (loopConfig agent2))
                                    (decisions (state agent2)) of
                         Inl e \<Rightarrow>
                           caught agent2 (totalTokensUsed + it_tokensUsed result) typeErrorMessage
                       | Inr stuck \<Rightarrow>
                           if \<not> stuck
                           then investigateLoop env agent2 (totalTokensUsed + it_tokensUsed result)
                           else
                             (case rev (decisions (state agent2)) of
                                [] \<Rightarrow> caught agent2 (totalTokensUsed + it_tokensUsed result)
                                             typeErrorMessage
                              | lastDecision # _ \<Rightarrow>
                                  (case addMessage (tokenizer env) (contextManager agent2)
                                          (nanoid env (contextManager agent2))
                                          (dateNow env (contextManager agent2))
                                          (writes env (contextManager agent2))
                                          \<lparr>p_role = User,
                                           p_content = stuckWarning (jsonStringify env)
                                                         (stuckThreshold (loopConfig agent2))
                                                         lastDecision,
                                           p_metadata = Some \<lparr>toolName = None, source = None,
                                                              compressible = Some False\<rparr>\<rparr> of
                                     Inl (e, cm') \<Rightarrow>
                                       caught (agent2\<lparr>contextManager := cm'\<rparr>)
                                              (totalTokensUsed + it_tokensUsed result)
                                              (errorMessage e)
                                   | Inr (cm', m) \<Rightarrow>
                                       investigateLoop env
                                         (agent2\<lparr>contextManager := cm',
                                                 state := (state agent2)
                                                   \<lparr>decisions :=
                                                      sliceTo (decisions (state agent2))
                                                        (- stuckThreshold (loopConfig agent2))\<rparr>\<rparr>)
                                         (totalTokensUsed + it_tokensUsed result)))))
      else partialResult agent totalTokensUsed)"
  by pat_completeness auto
termination
  by (relation "measure (\<lambda>(env, agent, t). nat (maxIterations (loopConfig agent) - iteration (state agent)))")
     (auto simp: runIteration_keeps)

declare investigateLoop.simps [simp del]

text \<open>
  \<open>investigate\<close>: the error that escapes, or the result and the agent afterwards. The
  first message carries the query and is marked not compressible; it is added before
  \<open>try\<close>.
\<close>

definition investigate ::
  "'a Env \<Rightarrow> 'a InvestigatorAgent \<Rightarrow> jstring \<Rightarrow> error + 'a InvestigationResult \<times> 'a InvestigatorAgent" where
  "investigate env agent query' =
     (case session (contextManager agent) of
        None \<Rightarrow> Inl NoActiveSession
      | Some s \<Rightarrow>
          (case addMessage (tokenizer env) (contextManager agent) (nanoid env (contextManager agent))
                  (dateNow env (contextManager agent)) (writes env (contextManager agent))
                  \<lparr>p_role = User, p_content = query',
                   p_metadata = Some \<lparr>toolName = None, source = None, compressible = Some False\<rparr>\<rparr> of
             Inl (e, cm') \<Rightarrow> Inl e
           | Inr (cm', m) \<Rightarrow> Inr (investigateLoop env (agent\<lparr>contextManager := cm'\<rparr>) 0)))"

subsection \<open>Orchestrator\<close>

record OrchestratorConfig =
  maxInvestigationIterations :: int
  o_enableThinking :: bool
  o_thinkingBudget :: int

text \<open>\<open>orchestratorAborted\<close> is the field \<open>aborted\<close>; \<open>abort()\<close> sets it.\<close>

record Orchestrator =
  orchestratorConfig :: OrchestratorConfig
  orchestratorAborted :: bool
  orchestratorContext :: ContextManager

record 'a AgentRunResult =
  ar_success :: bool
  ar_result :: jstring
  ar_iterations :: int
  ar_totalTokensUsed :: int
  ar_decisions :: "'a AgentDecision list"
  ar_error :: "jstring option"

text \<open>The investigator that \<open>run\<close> creates.\<close>

definition investigatorOf :: "Orchestrator \<Rightarrow> 'a InvestigatorAgent" where
  "investigatorOf orch =
     newInvestigatorAgent (orchestratorContext orch)
       \<lparr>maxIterations = maxInvestigationIterations (orchestratorConfig orch),
        stuckThreshold = 3,
        enableThinking = o_enableThinking (orchestratorConfig orch),
        thinkingBudget = o_thinkingBudget (orchestratorConfig orch)\<rparr>"

text \<open>
  The \<open>try\<close> block of \<open>Orchestrator.run\<close>: the result it returns, or the message of
  the error thrown in it with \<open>totalIterations\<close> and \<open>totalTokensUsed\<close> at the
  throw. The field \<open>aborted\<close> is read after a successful investigation.
\<close>

definition tryRun ::
  "'a OrchestratorEnv \<Rightarrow> Orchestrator \<Rightarrow> jstring \<Rightarrow> jstring \<times> int \<times> int + 'a AgentRunResult" where
  "tryRun env orch query' =
     (case investigate (agentEnv env) (investigatorOf orch) query' of
        Inl e \<Rightarrow> Inl (errorMessage e, 0, 0)
      | Inr (investigationResult, agent') \<Rightarrow>
          if \<not> ir_success investigationResult
          then Inr \<lparr>ar_success = False, ar_result = [],
                    ar_iterations = ir_iterations investigationResult,
                    ar_totalTokensUsed = ir_totalTokensUsed investigationResult,
                    ar_decisions = ir_decisions investigationResult,
                    ar_error = ir_error investigationResult\<rparr>
          else if orchestratorAborted orch \<or> abortWhileInvestigating env
          then Inr \<lparr>ar_success = False, ar_result = [],
                    ar_iterations = ir_iterations investigationResult,
                    ar_totalTokensUsed = ir_totalTokensUsed investigationResult,
                    ar_decisions = ir_decisions investigationResult,
                    ar_error = Some (ascii ''Aborted'')\<rparr>
          else
            (case synthesize env query' (ir_messages investigationResult)
                    (ir_keyFiles investigationResult) of
               Inl message \<Rightarrow>
                 Inl (message, ir_iterations investigationResult,
                      ir_totalTokensUsed investigationResult)
             | Inr synthesisResult \<Rightarrow>
                 if \<not> sr_success synthesisResult
                 then Inr \<lparr>ar_success = True, ar_result = ir_findings investigationResult,
                           ar_iterations = ir_iterations investigationResult + 1,
                           ar_totalTokensUsed = ir_totalTokensUsed investigationResult
                                                + sr_tokensUsed synthesisResult,
                           ar_decisions = ir_decisions investigationResult, ar_error = None\<rparr>
                 else Inr \<lparr>ar_success = True, ar_result = sr_report synthesisResult,
                           ar_iterations = ir_iterations investigationResult + 1,
                           ar_totalTokensUsed = ir_totalTokensUsed investigationResult
                                                + sr_tokensUsed synthesisResult,
                           ar_decisions = ir_decisions investigationResult, ar_error = None\<rparr>))"

text \<open>
  \<open>Orchestrator.run\<close>: the \<open>try\<close> block and its \<open>catch\<close>, which returns a result
  with the message of the error. The value is the error that escapes, or the result.
\<close>

definition runOrchestrator ::
  "'a OrchestratorEnv \<Rightarrow> Orchestrator \<Rightarrow> jstring \<Rightarrow> error + 'a AgentRunResult" where
  "runOrchestrator env orch query' =
     (case tryRun env orch query' of
        Inl (message, totalIterations, totalTokensUsed) \<Rightarrow>
          Inr \<lparr>ar_success = False, ar_result = [], ar_iterations = totalIterations,
               ar_totalTokensUsed = totalTokensUsed, ar_decisions = [],
               ar_error = Some message\<rparr>
      | Inr r \<Rightarrow> Inr r)"

section \<open>Properties of cancellation\<close>

lemma investigateLoop_aborted:
  "aborted agent \<Longrightarrow> investigateLoop env agent t = partialResult agent t"
  by (subst investigateLoop.simps) simp

lemma investigateLoop_success:
  "ir_success (fst (investigateLoop env agent t)) = (ir_error (fst (investigateLoop env agent t)) = None)"
proof (induction env agent t rule: investigateLoop.induct)
  case (1 env agent t)
  show ?case
    using 1
    by (simp only: investigateLoop.simps [of env agent t])
       (auto simp: partialResult_def caught_def doneResult_def Let_def
             split: Outcome.splits option.splits sum.splits list.splits prod.splits)
qed

lemma investigate_returns:
  assumes "addMessage (tokenizer env) (contextManager agent) (nanoid env (contextManager agent))
             (dateNow env (contextManager agent)) (writes env (contextManager agent))
             \<lparr>p_role = User, p_content = q,
              p_metadata = Some \<lparr>toolName = None, source = None, compressible = Some False\<rparr>\<rparr>
           = Inr (cm', m)"
  shows "investigate env agent q = Inr (investigateLoop env (agent\<lparr>contextManager := cm'\<rparr>) 0)"
proof -
  from assms have "session (contextManager agent) \<noteq> None"
    by (cases "session (contextManager agent)") (simp_all add: addMessage_no_session)
  with assms show ?thesis by (auto simp: investigate_def)
qed

text \<open>When no write is rejected, \<open>addMessage\<close> with a session returns.\<close>

lemma addMessage_written:
  assumes "session cm \<noteq> None"
      and "w_content w = None" and "w_compress w = None" and "w_session w = None"
  shows "\<exists>cm' m. addMessage enc cm nano now w params = Inr (cm', m)"
proof -
  from assms(1) obtain s where s: "session cm = Some s" by auto
  let ?m = "newMessage enc nano now params"
  from assms(2) have "\<exists>st1 s1. saveOriginal (w_content w) cm s ?m = Inr (st1, s1)"
    by (simp add: saveOriginal_def saveMessageContent_def Let_def)
  then obtain st1 s1 where so: "saveOriginal (w_content w) cm s ?m = Inr (st1, s1)" by blast
  define cm3 where "cm3 = pushMessage cm st1 s1 ?m"
  define r4 where "r4 = (if needsCompression cm3 then compress enc (w_compress w) cm3 else Inr cm3)"
  have "session cm3 \<noteq> None" by (simp add: cm3_def pushMessage_def Let_def)
  then have k: "session (managerAfter r4) \<noteq> None"
    using compress_keeps_session[of cm3 enc "w_compress w"] by (simp add: r4_def managerAfter_def)
  have r: "\<exists>c. r4 = Inr c"
    using assms(3) compress_thrown[of enc "w_compress w" cm3]
    by (cases r4) (auto simp: r4_def split: if_splits)
  have "addMessage enc cm nano now w params =
              (case r4 of
                 Inl (e, c) \<Rightarrow> Inl (e, c)
               | Inr c \<Rightarrow>
                   (case session c of
                      None \<Rightarrow> Inl (NoActiveSession, c)
                    | Some s4 \<Rightarrow>
                        (case saveSession (w_session w) (storage c) s4 of
                           Inl e \<Rightarrow> Inl (e, c)
                         | Inr st \<Rightarrow> Inr (c\<lparr>storage := st\<rparr>, ?m))))"
    using s so unfolding addMessage_def r4_def cm3_def newMessage_def
    by (simp add: Let_def)
  with k r assms(4) show ?thesis
    by (auto simp: managerAfter_def saveSession_def split: option.splits)
qed

lemma runOrchestrator_returns: "\<exists>r. runOrchestrator env orch q = Inr r"
  by (simp add: runOrchestrator_def split: sum.splits prod.splits)

lemma runOrchestrator_aborted:
  assumes "orchestratorAborted orch \<or> abortWhileInvestigating env"
  shows "runOrchestrator env orch q =
           (case investigate (agentEnv env) (investigatorOf orch) q of
              Inl e \<Rightarrow>
                Inr \<lparr>ar_success = False, ar_result = [], ar_iterations = 0, ar_totalTokensUsed = 0,
                     ar_decisions = [], ar_error = Some (errorMessage e)\<rparr>
            | Inr (r, a) \<Rightarrow>
                Inr \<lparr>ar_success = False, ar_result = [], ar_iterations = ir_iterations r,
                     ar_totalTokensUsed = ir_totalTokensUsed r, ar_decisions = ir_decisions r,
                     ar_error = (if ir_success r then Some (ascii ''Aborted'') else ir_error r)\<rparr>)"
  using assms
  by (auto simp: runOrchestrator_def tryRun_def split: sum.splits prod.splits)

subsection \<open>An abort before the first iteration, and an abort of the orchestrator\<close>

text \<open>
  A language model that answers every call with a thought and no tool call:
  \<open>runIteration\<close> sets the tokens of the system prompt, pushes a \<open>thinking\<close>
  decision, and adds the thought and the request to go on by a function call. No write is
  rejected.
\<close>

definition continuePrompt :: jstring where
  "continuePrompt =
     [35831, 36890, 36807] @ ascii '' function call ''
     @ [35843, 29992, 24037, 20855, 32487, 32493, 35843, 26597, 12290, 22914, 26524, 20449, 24687,
        24050, 25910, 38598, 23436, 25104, 65292, 35831, 36755, 20986]
     @ ascii '' '' @ [34] @ ascii ''[INVESTIGATION_COMPLETE]'' @ [34] @ ascii '' ''
     @ [24182, 21015, 20986, 21457, 29616, 12290]"

definition thoughtAdded :: "ContextManager \<Rightarrow> ContextManager" where
  "thoughtAdded cm =
     (let cm1 = setSystemPromptTokens cm 100;
          cm2 = managerAfterWith
                  (addMessage unitEncoder cm1 (ascii ''t'' @ showInt (int (length (getMessages cm1))))
                     0 allWritten
                     \<lparr>p_role = Assistant, p_content = ascii ''hm'', p_metadata = None\<rparr>)
      in managerAfterWith
           (addMessage unitEncoder cm2 (ascii ''u'' @ showInt (int (length (getMessages cm2))))
              0 allWritten
              \<lparr>p_role = User, p_content = continuePrompt, p_metadata = None\<rparr>))"

definition thinkingModel :: "unit Env" where
  "thinkingModel =
     \<lparr>tokenizer = unitEncoder,
      jsonStringify = (\<lambda>u. ascii ''{}''),
      nanoid = (\<lambda>cm. ascii ''q'' @ showInt (int (length (getMessages cm)))),
      dateNow = (\<lambda>cm. 0),
      writes = (\<lambda>cm. allWritten),
      iterate = (\<lambda>agent.
        \<lparr>outcome = Returned \<lparr>it_decision = Thinking (ascii ''hm''), it_thinking = None,
                              it_toolResult = None, it_tokensUsed = 150\<rparr>,
         ie_thinking = thinking (state agent),
         ie_lastToolResults = lastToolResults (state agent),
         ie_keyFiles = keyFiles agent,
         ie_contextManager = thoughtAdded (contextManager agent),
         ie_abort = False\<rparr>)\<rparr>"

definition defaultAgentLoopConfig :: AgentLoopConfig where
  "defaultAgentLoopConfig =
     \<lparr>maxIterations = 20, stuckThreshold = 3, enableThinking = False, thinkingBudget = 32768\<rparr>"

text \<open>
  An orchestrator that allows one iteration, and whose \<open>abort()\<close> is invoked while the
  investigation runs; the synthesizer, had it been reached, returns a report.
\<close>

definition interrupted :: "unit OrchestratorEnv" where
  "interrupted =
     \<lparr>agentEnv = thinkingModel,
      synthesize = (\<lambda>query' messages' files.
        Inr \<lparr>sr_success = True, sr_report = ascii ''report'', sr_tokensUsed = 10,
             sr_error = None\<rparr>),
      abortWhileInvestigating = True\<rparr>"

definition newOrchestrator :: Orchestrator where
  "newOrchestrator =
     \<lparr>orchestratorConfig = \<lparr>maxInvestigationIterations = 1, o_enableThinking = False,
                             o_thinkingBudget = 32768\<rparr>,
      orchestratorAborted = False,
      orchestratorContext = started\<rparr>"

lemma first_message_added:
  "session cm \<noteq> None \<Longrightarrow>
   \<exists>cm' m. addMessage (tokenizer thinkingModel) cm (nanoid thinkingModel cm)
             (dateNow thinkingModel cm) (writes thinkingModel cm) params = Inr (cm', m)"
  by (rule addMessage_written) (simp_all add: thinkingModel_def allWritten_def)

text \<open>
  C6, as the specification has it, fails: \<open>abort()\<close> and then \<open>investigate('q')\<close> on a
  new agent with a session returns a result with \<open>success: true\<close>, after no iteration.
\<close>

theorem investigate_aborted_succeeds:
  "(case investigate thinkingModel (abort (newInvestigatorAgent started defaultAgentLoopConfig))
           (ascii ''q'') of
      Inl e \<Rightarrow> None
    | Inr (r, a) \<Rightarrow> Some (ir_success r, ir_iterations r, ir_error r))
   = Some (True, 0, None)"
proof -
  let ?agent = "abort (newInvestigatorAgent started defaultAgentLoopConfig) :: unit InvestigatorAgent"
  have "session (contextManager ?agent) \<noteq> None"
    by (simp add: abort_def newInvestigatorAgent_def started_session)
  from first_message_added [OF this] obtain cm' m where
    "addMessage (tokenizer thinkingModel) (contextManager ?agent)
       (nanoid thinkingModel (contextManager ?agent)) (dateNow thinkingModel (contextManager ?agent))
       (writes thinkingModel (contextManager ?agent))
       \<lparr>p_role = User, p_content = ascii ''q'',
        p_metadata = Some \<lparr>toolName = None, source = None, compressible = Some False\<rparr>\<rparr>
     = Inr (cm', m)"
    by blast
  from investigate_returns [OF this] show ?thesis
    by (simp add: investigateLoop_aborted abort_def partialResult_def newInvestigatorAgent_def)
qed

text \<open>
  C6, amended. Without a session \<open>investigate\<close> throws \<open>No active session\<close>. Once
  its first message is added, it returns a result: an error thrown inside the loop is
  caught, and the result is unsuccessful exactly when it carries the message of such an
  error. An abort is seen at the head of the loop only: the loop stops there and the
  result is the one of a run out of iterations, with \<open>success: true\<close>, the partial
  findings and the iterations begun so far. No exception escapes \<open>Orchestrator.run\<close>:
  an error that escapes the investigator becomes a result with \<open>success: false\<close> and
  its message. When \<open>abort()\<close> of the orchestrator was invoked before the
  investigation returned, its result has \<open>success: false\<close>, with the error
  \<open>Aborted\<close> if the investigation succeeded and with the error of the investigation
  otherwise.
\<close>

theorem abort_outcome:
  "(session (contextManager agent) = None \<longrightarrow> investigate env agent q = Inl NoActiveSession)
   \<and> (addMessage (tokenizer env) (contextManager agent) (nanoid env (contextManager agent))
         (dateNow env (contextManager agent)) (writes env (contextManager agent))
         \<lparr>p_role = User, p_content = q,
          p_metadata = Some \<lparr>toolName = None, source = None, compressible = Some False\<rparr>\<rparr>
       = Inr (cm', m) \<longrightarrow>
        (\<exists>r a. investigate env agent q = Inr (r, a) \<and> ir_success r = (ir_error r = None)
               \<and> (aborted agent \<longrightarrow>
                     ir_success r \<and> ir_iterations r = iteration (state agent)
                     \<and> ir_findings r = gatherPartialFindings cm')))
   \<and> (aborted agent \<longrightarrow>
        investigateLoop env agent t = partialResult agent t
        \<and> ir_success (fst (partialResult agent t))
        \<and> ir_iterations (fst (partialResult agent t)) = iteration (state agent))
   \<and> (\<exists>r. runOrchestrator oenv orch q = Inr r)
   \<and> (investigate (agentEnv oenv) (investigatorOf orch) q = Inl e \<longrightarrow>
        runOrchestrator oenv orch q
          = Inr \<lparr>ar_success = False, ar_result = [], ar_iterations = 0, ar_totalTokensUsed = 0,
                 ar_decisions = [], ar_error = Some (errorMessage e)\<rparr>)
   \<and> (orchestratorAborted orch \<or> abortWhileInvestigating oenv \<longrightarrow>
        (\<exists>r. runOrchestrator oenv orch q = Inr r \<and> \<not> ar_success r
             \<and> ar_error r
                 = (case investigate (agentEnv oenv) (investigatorOf orch) q of
                      Inl e \<Rightarrow> Some (errorMessage e)
                    | Inr (ir, a) \<Rightarrow>
                        if ir_success ir then Some (ascii ''Aborted'') else ir_error ir)))"
proof (intro conjI impI)
  assume "session (contextManager agent) = None"
  then show "investigate env agent q = Inl NoActiveSession"
    by (simp add: investigate_def)
next
  assume "addMessage (tokenizer env) (contextManager agent) (nanoid env (contextManager agent))
         (dateNow env (contextManager agent)) (writes env (contextManager agent))
         \<lparr>p_role = User, p_content = q,
          p_metadata = Some \<lparr>toolName = None, source = None, compressible = Some False\<rparr>\<rparr>
       = Inr (cm', m)"
  from investigate_returns [OF this]
  have eq: "investigate env agent q = Inr (investigateLoop env (agent\<lparr>contextManager := cm'\<rparr>) 0)" .
  obtain r a where ra: "investigateLoop env (agent\<lparr>contextManager := cm'\<rparr>) 0 = (r, a)"
    by (cases "investigateLoop env (agent\<lparr>contextManager := cm'\<rparr>) 0")
  from investigateLoop_success [of env "agent\<lparr>contextManager := cm'\<rparr>" 0] ra
  have 1: "ir_success r = (ir_error r = None)" by simp
  have 2: "aborted agent \<longrightarrow> ir_success r \<and> ir_iterations r = iteration (state agent)
                                 \<and> ir_findings r = gatherPartialFindings cm'"
  proof
    assume "aborted agent"
    then have "investigateLoop env (agent\<lparr>contextManager := cm'\<rparr>) 0
                 = partialResult (agent\<lparr>contextManager := cm'\<rparr>) 0"
      by (simp add: investigateLoop_aborted)
    with ra show "ir_success r \<and> ir_iterations r = iteration (state agent)
                    \<and> ir_findings r = gatherPartialFindings cm'"
      by (auto simp: partialResult_def)
  qed
  from eq ra 1 2 show "\<exists>r a. investigate env agent q = Inr (r, a) \<and> ir_success r = (ir_error r = None)
               \<and> (aborted agent \<longrightarrow>
                     ir_success r \<and> ir_iterations r = iteration (state agent)
                     \<and> ir_findings r = gatherPartialFindings cm')"
    by simp
next
  assume "aborted agent"
  then show "investigateLoop env agent t = partialResult agent t"
    by (rule investigateLoop_aborted)
next
  show "ir_success (fst (partialResult agent t))" by (simp add: partialResult_def)
next
  show "ir_iterations (fst (partialResult agent t)) = iteration (state agent)"
    by (simp add: partialResult_def)
next
  show "\<exists>r. runOrchestrator oenv orch q = Inr r" by (rule runOrchestrator_returns)
next
  assume "investigate (agentEnv oenv) (investigatorOf orch) q = Inl e"
  then show "runOrchestrator oenv orch q
          = Inr \<lparr>ar_success = False, ar_result = [], ar_iterations = 0, ar_totalTokensUsed = 0,
                 ar_decisions = [], ar_error = Some (errorMessage e)\<rparr>"
    by (simp add: runOrchestrator_def tryRun_def)
next
  assume ab: "orchestratorAborted orch \<or> abortWhileInvestigating oenv"
  show "\<exists>r. runOrchestrator oenv orch q = Inr r \<and> \<not> ar_success r
             \<and> ar_error r
                 = (case investigate (agentEnv oenv) (investigatorOf orch) q of
                      Inl e \<Rightarrow> Some (errorMessage e)
                    | Inr (ir, a) \<Rightarrow>
                        if ir_success ir then Some (ascii ''Aborted'') else ir_error ir)"
    unfolding runOrchestrator_aborted [OF ab]
    by (simp split: sum.splits prod.splits)
qed

theorem abort_outcome_witness:
  "(\<exists>r a. investigate thinkingModel (abort (newInvestigatorAgent started defaultAgentLoopConfig))
            (ascii ''q'') = Inr (r, a)
          \<and> ir_success r \<and> ir_error r = None \<and> ir_iterations r = 0)
   \<and> investigate thinkingModel
        (newInvestigatorAgent (smallManager\<lparr>session := None\<rparr>) defaultAgentLoopConfig) (ascii ''q'')
       = Inl NoActiveSession
   \<and> (\<exists>r. runOrchestrator interrupted newOrchestrator (ascii ''q'') = Inr r
          \<and> \<not> ar_success r \<and> ar_iterations r = 1 \<and> ar_error r = Some (ascii ''Aborted''))"
proof -
  let ?agent = "abort (newInvestigatorAgent started defaultAgentLoopConfig) :: unit InvestigatorAgent"
  let ?none = "newInvestigatorAgent (smallManager\<lparr>session := None\<rparr>) defaultAgentLoopConfig
                 :: unit InvestigatorAgent"
  let ?inv = "investigatorOf newOrchestrator :: unit InvestigatorAgent"
  let ?query = "\<lparr>p_role = User, p_content = ascii ''q'',
                  p_metadata = Some \<lparr>toolName = None, source = None, compressible = Some False\<rparr>\<rparr>"
  have "session (contextManager ?agent) \<noteq> None"
    by (simp add: abort_def newInvestigatorAgent_def started_session)
  from first_message_added [OF this] obtain cm' m where
    add: "addMessage (tokenizer thinkingModel) (contextManager ?agent)
            (nanoid thinkingModel (contextManager ?agent)) (dateNow thinkingModel (contextManager ?agent))
            (writes thinkingModel (contextManager ?agent)) ?query = Inr (cm', m)"
    by blast
  have a: "aborted ?agent" and i: "iteration (state ?agent) = 0"
    by (simp_all add: abort_def newInvestigatorAgent_def)
  note outcome = abort_outcome [of ?agent thinkingModel "ascii ''q''" cm' m 0 interrupted
                                   newOrchestrator NoActiveSession]
  from outcome [THEN conjunct2, THEN conjunct1, THEN mp, OF add]
  obtain r0 a0 where "investigate thinkingModel ?agent (ascii ''q'') = Inr (r0, a0)"
    "ir_success r0 = (ir_error r0 = None)"
    "aborted ?agent \<longrightarrow> ir_success r0 \<and> ir_iterations r0 = iteration (state ?agent)
                           \<and> ir_findings r0 = gatherPartialFindings cm'"
    by (elim exE conjE)
  with a i have "investigate thinkingModel ?agent (ascii ''q'') = Inr (r0, a0)
          \<and> ir_success r0 \<and> ir_error r0 = None \<and> ir_iterations r0 = 0"
    by simp
  then have 1: "\<exists>r a. investigate thinkingModel ?agent (ascii ''q'') = Inr (r, a)
          \<and> ir_success r \<and> ir_error r = None \<and> ir_iterations r = 0"
    by blast
  have "session (contextManager ?none) = None"
    by (simp add: newInvestigatorAgent_def)
  from abort_outcome [of ?none thinkingModel "ascii ''q''" cm' m 0 interrupted newOrchestrator
                        NoActiveSession, THEN conjunct1, THEN mp, OF this]
  have 2: "investigate thinkingModel ?none (ascii ''q'') = Inl NoActiveSession" .
  have "session (contextManager ?inv) \<noteq> None"
    by (simp add: investigatorOf_def newOrchestrator_def newInvestigatorAgent_def started_session)
  from first_message_added [OF this] obtain cm1 m1 where
    "addMessage (tokenizer thinkingModel) (contextManager ?inv)
            (nanoid thinkingModel (contextManager ?inv)) (dateNow thinkingModel (contextManager ?inv))
            (writes thinkingModel (contextManager ?inv)) ?query = Inr (cm1, m1)"
    by blast
  from investigate_returns [OF this]
  have inv: "investigate thinkingModel ?inv (ascii ''q'')
          = Inr (investigateLoop thinkingModel (?inv\<lparr>contextManager := cm1\<rparr>) 0)" .
  have stuck: "isStuck (\<lambda>u. ascii ''{}'') 3 [Thinking (ascii ''hm'') :: unit AgentDecision] = Inr False"
    by (simp add: isStuck_def sliceFrom_def Let_def)
  have loop: "ir_success (fst (investigateLoop thinkingModel (?inv\<lparr>contextManager := cm1\<rparr>) 0))
            \<and> ir_iterations (fst (investigateLoop thinkingModel (?inv\<lparr>contextManager := cm1\<rparr>) 0)) = 1"
    by (subst (1 2) investigateLoop.simps, subst (1 2) investigateLoop.simps)
       (simp add: investigatorOf_def newOrchestrator_def newInvestigatorAgent_def
                  runIteration_def thinkingModel_def doneText_def partialResult_def stuck Let_def)
  have o: "orchestratorAborted newOrchestrator \<or> abortWhileInvestigating interrupted"
    and e: "agentEnv interrupted = thinkingModel"
    by (simp_all add: interrupted_def)
  from outcome [THEN conjunct2, THEN conjunct2, THEN conjunct2, THEN conjunct2, THEN conjunct2,
                THEN mp, OF o]
  obtain r where r: "runOrchestrator interrupted newOrchestrator (ascii ''q'') = Inr r"
    "\<not> ar_success r"
    "ar_error r = (case investigate (agentEnv interrupted) ?inv (ascii ''q'') of
                      Inl e \<Rightarrow> Some (errorMessage e)
                    | Inr (ir, a) \<Rightarrow>
                        if ir_success ir then Some (ascii ''Aborted'') else ir_error ir)"
    by blast
  from r(3) inv loop e have ab: "ar_error r = Some (ascii ''Aborted'')"
    by (simp add: split_beta)
  from r(1) inv loop e o have it: "ar_iterations r = 1"
    by (auto simp: runOrchestrator_def tryRun_def split_beta)
  from r(1,2) ab it have 3: "\<exists>r. runOrchestrator interrupted newOrchestrator (ascii ''q'') = Inr r
          \<and> \<not> ar_success r \<and> ar_iterations r = 1 \<and> ar_error r = Some (ascii ''Aborted'')"
    by blast
  from 1 2 3 show ?thesis by (intro conjI)
qed

end
